theory Spec2Isabelle
  imports Complex_Main "HOL-Library.Word" "HOL-Library.Product_Lexorder"
begin

section \<open>The batched top-K recommender of \<open>src/models/model.py\<close>\<close>

text \<open>
  The development embeds \<open>BaseModel.recommend\<close> and its two helpers
  \<open>_recommend_for_users\<close> and \<open>_recommend_for_movies\<close>. The abstract method
  \<open>predict\<close> is a parameter: a function from the array of pairs to the array of scores.
  Every call of \<open>predict\<close> is recorded, in order, in a list of calls that the model
  returns beside the result, so that statements about what the scoring function receives
  are statements about that list.
\<close>

subsection \<open>Data\<close>

text \<open>Entity identifiers enter as Python integers and are stored with dtype \<open>uint32\<close>.\<close>

type_synonym u32 = "32 word"

text \<open>
  A cell of a \<open>float64\<close> array: not-a-number (what \<open>None\<close> becomes in such an array, and
  what pandas counts as missing), the two infinities, or a finite value. Only the order and
  the equality of finite values matter to the ranking, so a finite value is a real.
\<close>

datatype f64 = NaN | NegInf | Fin real | PosInf

datatype error = ValueError | KeyError | IndexError | AttributeError | AssertionError

text \<open>A two-dimensional array is the list of its rows.\<close>

type_synonym matrix = "f64 list list"

type_synonym pairs = "(u32 \<times> u32) list"

text \<open>One row of the data frame with columns \<open>userId\<close>, \<open>movieId\<close>, \<open>predicted\<close>.
  The frame holds the identifiers as \<open>float64\<close>, which represents every \<open>uint32\<close>
  exactly; the model keeps them as words and converts where a cell is written.\<close>

record row =
  userId :: u32
  movieId :: u32
  predicted :: f64

subsection \<open>Library operations\<close>

text \<open>\<open>np.array(..., dtype='uint32')\<close> on a Python integer: the C conversion, which keeps
  the low 32 bits.\<close>

definition uint32 :: "int \<Rightarrow> u32" where
  "uint32 x = word_of_int x"

text \<open>The identifier as the \<open>float64\<close> cell that is written into the item matrix.\<close>

definition id_cell :: "u32 \<Rightarrow> f64" where
  "id_cell w = Fin (real (unat w))"

text \<open>\<open>{x: i for i, x in enumerate(xs)}\<close>: a later occurrence of a key replaces the
  earlier one.\<close>

definition index_mapping :: "int list \<Rightarrow> (int \<rightharpoonup> nat)" where
  "index_mapping xs = fold (\<lambda>(i, x) d. d(x \<mapsto> i)) (enumerate 0 xs) Map.empty"

text \<open>\<open>np.hstack\<close> of the pair array and the score column, made a data frame.\<close>

definition make_table :: "pairs \<Rightarrow> f64 list \<Rightarrow> row list" where
  "make_table ps sc =
     map (\<lambda>((u, m), s). \<lparr>userId = u, movieId = m, predicted = s\<rparr>) (zip ps sc)"

text \<open>\<open>DataFrame.dropna\<close>: the identifier columns are never missing, so a row goes exactly
  when its score is not-a-number. Infinite scores stay.\<close>

definition dropna :: "row list \<Rightarrow> row list" where
  "dropna df = filter (\<lambda>r. predicted r \<noteq> NaN) df"

text \<open>\<open>np.full([n, k], None, dtype='float64')\<close>.\<close>

definition full :: "nat \<Rightarrow> nat \<Rightarrow> matrix" where
  "full n k = replicate n (replicate k NaN)"

text \<open>The order of \<open>float64\<close> values that are not missing.\<close>

fun f64_le :: "f64 \<Rightarrow> f64 \<Rightarrow> bool" where
  "f64_le NaN _ = False"
| "f64_le _ NaN = False"
| "f64_le NegInf _ = True"
| "f64_le _ PosInf = True"
| "f64_le (Fin a) (Fin b) = (a \<le> b)"
| "f64_le _ _ = False"

text \<open>A sort key that is ascending exactly when the score is descending.\<close>

fun desc_key :: "f64 \<Rightarrow> int \<times> real" where
  "desc_key PosInf = (-1, 0)"
| "desc_key (Fin a) = (0, - a)"
| "desc_key NegInf = (1, 0)"
| "desc_key NaN = (2, 0)"

text \<open>
  \<open>df.groupby(key, sort=False)['predicted'].rank(ascending=False, method='first')\<close>:
  the rows with the key of row \<open>i\<close> are put in descending order of score by a stable
  sort, so that rows of equal score keep the order in which they appear in the frame, and
  the rank of row \<open>i\<close> is its place in that order, counted from 1.
\<close>

definition group_positions :: "(row \<Rightarrow> u32) \<Rightarrow> row list \<Rightarrow> u32 \<Rightarrow> nat list" where
  "group_positions key df k = filter (\<lambda>j. key (df ! j) = k) [0..<length df]"

definition rank_order :: "(row \<Rightarrow> u32) \<Rightarrow> row list \<Rightarrow> u32 \<Rightarrow> nat list" where
  "rank_order key df k =
     sort_key (\<lambda>j. desc_key (predicted (df ! j))) (group_positions key df k)"

definition position :: "nat list \<Rightarrow> nat \<Rightarrow> nat" where
  "position xs a = length (takeWhile (\<lambda>j. j \<noteq> a) xs)"

definition rank_of :: "(row \<Rightarrow> u32) \<Rightarrow> row list \<Rightarrow> nat \<Rightarrow> nat" where
  "rank_of key df i = Suc (position (rank_order key df (key (df ! i))) i)"

definition groupby_rank :: "(row \<Rightarrow> u32) \<Rightarrow> row list \<Rightarrow> nat list" where
  "groupby_rank key df = map (rank_of key df) [0..<length df]"

text \<open>\<open>np.vstack\<close>: the rows of both arrays must have one length.\<close>

definition vstack :: "matrix \<Rightarrow> matrix \<Rightarrow> error + matrix" where
  "vstack a b =
     (if list_all (\<lambda>r. list_all (\<lambda>s. length r = length s) b) a then Inr (a @ b)
      else Inl ValueError)"

subsection \<open>\<open>_recommend_for_users\<close> and \<open>_recommend_for_movies\<close>\<close>

text \<open>
  The loop over \<open>df_table.itertuples()\<close>. The row index is looked up in the dictionary
  under the identifier read back from the frame (a float that equals, and hashes as, the
  integer it holds), which raises \<open>KeyError\<close> when the identifier is no key. The column is
  \<open>int(rank - 1)\<close>; ranks start at 1, so it is never negative.
\<close>

fun itertuples_loop ::
  "(row \<Rightarrow> u32) \<Rightarrow> (row \<Rightarrow> u32) \<Rightarrow> (int \<rightharpoonup> nat) \<Rightarrow> (row \<times> nat) list \<Rightarrow>
   matrix \<times> matrix \<Rightarrow> error + matrix \<times> matrix" where
  "itertuples_loop key item index_map [] acc = Inr acc"
| "itertuples_loop key item index_map ((r, rank) # rest) (rec_items, rec_scores) =
     (case index_map (uint (key r)) of
        None \<Rightarrow> Inl KeyError
      | Some index0 \<Rightarrow>
          (let index1 = rank - 1 in
           if index0 < length rec_items \<and> index1 < length (rec_items ! index0) \<and>
              index0 < length rec_scores \<and> index1 < length (rec_scores ! index0)
           then itertuples_loop key item index_map rest
                  (rec_items[index0 := (rec_items ! index0)[index1 := id_cell (item r)]],
                   rec_scores[index0 := (rec_scores ! index0)[index1 := predicted r]])
           else Inl IndexError))"

text \<open>Lines 82 to 102 (and 120 to 140): the two result arrays, the rank column, the cut at
  \<open>maxsize\<close> and the loop that fills the arrays.\<close>

definition rank_and_fill ::
  "(row \<Rightarrow> u32) \<Rightarrow> (row \<Rightarrow> u32) \<Rightarrow> (int \<rightharpoonup> nat) \<Rightarrow> nat \<Rightarrow> row list \<Rightarrow> int \<Rightarrow>
   error + matrix \<times> matrix" where
  "rank_and_fill key item index_map n df_table maxsize =
     (if maxsize < 0 then Inl ValueError
      else
        (let rec_items = full n (nat maxsize);
             rec_scores = full n (nat maxsize)
         in if df_table \<noteq> [] then
              (let ranked = zip df_table (groupby_rank key df_table);
                   kept = filter (\<lambda>(r, rank). int rank \<le> maxsize) ranked
               in itertuples_loop key item index_map kept (rec_items, rec_scores))
            else Inr (rec_items, rec_scores)))"

text \<open>The cross products of lines 67 and 105:
  \<open>[[u, m] for m in movies for u in users]\<close> and \<open>[[u, m] for u in users for m in movies]\<close>,
  each stored with dtype \<open>uint32\<close>. The first component of a pair is always the user.\<close>

definition pairs_for_users :: "int list \<Rightarrow> int list \<Rightarrow> pairs" where
  "pairs_for_users users movies =
     concat (map (\<lambda>m. map (\<lambda>u. (uint32 u, uint32 m)) users) movies)"

definition pairs_for_movies :: "int list \<Rightarrow> int list \<Rightarrow> pairs" where
  "pairs_for_movies movies users =
     concat (map (\<lambda>u. map (\<lambda>m. (uint32 u, uint32 m)) movies) users)"

text \<open>
  Both helpers call \<open>predict\<close> once, on the cross product they build; the call is the first
  component of what they return. \<open>reshape\<close> raises \<open>ValueError\<close> when \<open>predict\<close> did not
  return one score per pair; \<open>np.hstack\<close> raises \<open>ValueError\<close> when the cross product is
  empty, since the pair array is then one-dimensional; \<open>np.full\<close> raises \<open>ValueError\<close> on a
  negative \<open>maxsize\<close>.
\<close>

definition recommend_for_users ::
  "(pairs \<Rightarrow> f64 list) \<Rightarrow> int list \<Rightarrow> int list \<Rightarrow> int option \<Rightarrow>
   pairs \<times> (error + matrix \<times> matrix)" where
  "recommend_for_users predict users movies maxsize =
     (let user_movie_pair = pairs_for_users users movies;
          user_index_mapping = index_mapping users;
          predicted_col = predict user_movie_pair;
          n_samples = length user_movie_pair
      in (user_movie_pair,
          if length predicted_col \<noteq> n_samples then Inl ValueError
          else if user_movie_pair = [] then Inl ValueError
          else
            (let df_table = dropna (make_table user_movie_pair predicted_col);
                 maxsize = (case maxsize of None \<Rightarrow> int (length movies) | Some k \<Rightarrow> k)
             in rank_and_fill userId movieId user_index_mapping (length users)
                  df_table maxsize)))"

definition recommend_for_movies ::
  "(pairs \<Rightarrow> f64 list) \<Rightarrow> int list \<Rightarrow> int list \<Rightarrow> int option \<Rightarrow>
   pairs \<times> (error + matrix \<times> matrix)" where
  "recommend_for_movies predict movies users maxsize =
     (let user_movie_pair = pairs_for_movies movies users;
          movie_index_mapping = index_mapping movies;
          predicted_col = predict user_movie_pair;
          n_samples = length user_movie_pair
      in (user_movie_pair,
          if length predicted_col \<noteq> n_samples then Inl ValueError
          else if user_movie_pair = [] then Inl ValueError
          else
            (let df_table = dropna (make_table user_movie_pair predicted_col);
                 maxsize = (case maxsize of None \<Rightarrow> int (length users) | Some k \<Rightarrow> k)
             in rank_and_fill movieId userId movie_index_mapping (length movies)
                  df_table maxsize)))"

subsection \<open>\<open>recommend\<close>\<close>

definition batch_num :: nat where
  "batch_num = 100"

text \<open>The slice \<open>xs[start:end]\<close> for \<open>0 \<le> start\<close> and \<open>0 \<le> end\<close>.\<close>

definition py_slice :: "'a list \<Rightarrow> nat \<Rightarrow> nat \<Rightarrow> 'a list" where
  "py_slice xs start end = take (end - start) (drop start xs)"

text \<open>\<open>math.ceil(n / batch_num)\<close>.\<close>

definition n_batches :: "nat \<Rightarrow> nat" where
  "n_batches n = (n + batch_num - 1) div batch_num"

text \<open>
  The \<open>for i in range(...)\<close> loop. The state is the list of calls of \<open>predict\<close> made so far
  and the accumulated pair of arrays (\<open>None\<close> before the first batch; the source sets and
  tests \<open>rec_items\<close> and \<open>rec_scores\<close> together). The helper \<open>f\<close> is
  \<open>_recommend_for_users\<close> or \<open>_recommend_for_movies\<close> with everything but the batch fixed.
\<close>

fun batch_loop ::
  "(int list \<Rightarrow> pairs \<times> (error + matrix \<times> matrix)) \<Rightarrow> int list \<Rightarrow> nat list \<Rightarrow>
   pairs list \<times> (matrix \<times> matrix) option \<Rightarrow>
   pairs list \<times> (error + (matrix \<times> matrix) option)" where
  "batch_loop f sources [] (calls, acc) = (calls, Inr acc)"
| "batch_loop f sources (i # is) (calls, acc) =
     (let start = i * batch_num;
          end = min ((i + 1) * batch_num) (length sources);
          (call, sub) = f (py_slice sources start end)
      in case sub of
           Inl e \<Rightarrow> (calls @ [call], Inl e)
         | Inr (sub_rec_items, sub_rec_scores) \<Rightarrow>
             (case acc of
                None \<Rightarrow>
                  batch_loop f sources is (calls @ [call], Some (sub_rec_items, sub_rec_scores))
              | Some (rec_items, rec_scores) \<Rightarrow>
                  (case vstack rec_items sub_rec_items of
                     Inl e \<Rightarrow> (calls @ [call], Inl e)
                   | Inr rec_items' \<Rightarrow>
                       (case vstack rec_scores sub_rec_scores of
                          Inl e \<Rightarrow> (calls @ [call], Inl e)
                        | Inr rec_scores' \<Rightarrow>
                            batch_loop f sources is
                              (calls @ [call], Some (rec_items', rec_scores'))))))"

text \<open>What follows the loop: \<open>rec_items.shape\<close> on \<open>None\<close> raises \<open>AttributeError\<close>; the two
  assertions compare the row counts with the number of sources.\<close>

definition check_rows ::
  "nat \<Rightarrow> pairs list \<times> (error + (matrix \<times> matrix) option) \<Rightarrow>
   pairs list \<times> (error + matrix \<times> matrix)" where
  "check_rows n res =
     (case res of
        (calls, Inl e) \<Rightarrow> (calls, Inl e)
      | (calls, Inr None) \<Rightarrow> (calls, Inl AttributeError)
      | (calls, Inr (Some (rec_items, rec_scores))) \<Rightarrow>
          if length rec_items \<noteq> n then (calls, Inl AssertionError)
          else if length rec_scores \<noteq> n then (calls, Inl AssertionError)
          else (calls, Inr (rec_items, rec_scores)))"

definition recommend ::
  "(pairs \<Rightarrow> f64 list) \<Rightarrow> string \<Rightarrow> int list \<Rightarrow> int list \<Rightarrow> int option \<Rightarrow>
   pairs list \<times> (error + matrix \<times> matrix)" where
  "recommend predict recommended_type users movies maxsize =
     (if recommended_type = ''movie'' then
        (let user_num = length users
         in check_rows (length users)
              (batch_loop (\<lambda>b. recommend_for_users predict b movies maxsize) users
                 [0..<n_batches user_num] ([], None)))
      else if recommended_type = ''user'' then
        (let movie_num = length movies
         in check_rows (length movies)
              (batch_loop (\<lambda>b. recommend_for_movies predict b users maxsize) movies
                 [0..<n_batches movie_num] ([], None)))
      else ([], Inl ValueError))"

section \<open>Notions used in the statements\<close>

text \<open>The list cut into consecutive chunks of \<open>n\<close> elements, the last one possibly
  shorter: the partition that the specification describes.\<close>

function chunks :: "nat \<Rightarrow> 'a list \<Rightarrow> 'a list list" where
  "chunks n xs = (if n = 0 \<or> xs = [] then [] else take n xs # chunks n (drop n xs))"
  by pat_completeness auto
termination
  by (relation "measure (\<lambda>(n, xs). length xs)") auto

text \<open>
  The two directions differ in which list holds the sources, which column is the group key
  and which is the item, and in the order of the cross product. The following functions
  select them from the direction, so that one statement covers both branches of
  \<open>recommend\<close>.
\<close>

definition sources_of :: "string \<Rightarrow> int list \<Rightarrow> int list \<Rightarrow> int list" where
  "sources_of t users movies = (if t = ''movie'' then users else movies)"

definition targets_of :: "string \<Rightarrow> int list \<Rightarrow> int list \<Rightarrow> int list" where
  "targets_of t users movies = (if t = ''movie'' then movies else users)"

definition src_of :: "string \<Rightarrow> u32 \<times> u32 \<Rightarrow> u32" where
  "src_of t p = (if t = ''movie'' then fst p else snd p)"

definition tgt_of :: "string \<Rightarrow> u32 \<times> u32 \<Rightarrow> u32" where
  "tgt_of t p = (if t = ''movie'' then snd p else fst p)"

definition key_of :: "string \<Rightarrow> row \<Rightarrow> u32" where
  "key_of t = (if t = ''movie'' then userId else movieId)"

definition item_of :: "string \<Rightarrow> row \<Rightarrow> u32" where
  "item_of t = (if t = ''movie'' then movieId else userId)"

definition pairs_of :: "string \<Rightarrow> int list \<Rightarrow> int list \<Rightarrow> pairs" where
  "pairs_of t batch targets =
     (if t = ''movie'' then pairs_for_users batch targets else pairs_for_movies batch targets)"

definition helper ::
  "string \<Rightarrow> (pairs \<Rightarrow> f64 list) \<Rightarrow> int list \<Rightarrow> int option \<Rightarrow> int list \<Rightarrow>
   pairs \<times> (error + matrix \<times> matrix)" where
  "helper t predict targets maxsize batch =
     (if t = ''movie'' then recommend_for_users predict batch targets maxsize
      else recommend_for_movies predict batch targets maxsize)"

text \<open>The number of columns: \<open>maxsize\<close>, or the number of targets when it is unset.\<close>

definition width :: "int option \<Rightarrow> int list \<Rightarrow> int" where
  "width maxsize targets = (case maxsize of None \<Rightarrow> int (length targets) | Some k \<Rightarrow> k)"

text \<open>The data frame that a helper ranks, given the pairs it scored.\<close>

definition frame :: "(pairs \<Rightarrow> f64 list) \<Rightarrow> pairs \<Rightarrow> row list" where
  "frame predict call = dropna (make_table call (predict call))"

text \<open>What the two helpers have in common, with the cross product, the key column and the
  item column as parameters.\<close>

definition rank_batch ::
  "(row \<Rightarrow> u32) \<Rightarrow> (row \<Rightarrow> u32) \<Rightarrow> (pairs \<Rightarrow> f64 list) \<Rightarrow> pairs \<Rightarrow> int list \<Rightarrow> int \<Rightarrow>
   pairs \<times> (error + matrix \<times> matrix)" where
  "rank_batch key item predict call batch maxsize =
     (call,
      if length (predict call) \<noteq> length call then Inl ValueError
      else if call = [] then Inl ValueError
      else rank_and_fill key item (index_mapping batch) (length batch)
             (frame predict call) maxsize)"

text \<open>
  The scoring function of the scenario in section 8 of the specification: the pair of user
  1 and movie 30 has no score, the pairs of user 2 with movies 10 and 20 tie.
\<close>

definition scenario_score :: "u32 \<times> u32 \<Rightarrow> f64" where
  "scenario_score p =
     (if p = (1, 10) then Fin 0.9 else if p = (1, 20) then Fin 0.5
      else if p = (1, 30) then NaN else if p = (2, 10) then Fin 0.1
      else if p = (2, 20) then Fin 0.1 else if p = (2, 30) then Fin 0.8
      else NaN)"

definition scenario_predict :: "pairs \<Rightarrow> f64 list" where
  "scenario_predict ps = map scenario_score ps"

text \<open>What \<open>recommend\<close> returns in that scenario when \<open>maxsize\<close> is unset: the one call of
  \<open>predict\<close>, the items and the scores.\<close>

definition scenario_calls :: "pairs list" where
  "scenario_calls = [[(1, 10), (2, 10), (1, 20), (2, 20), (1, 30), (2, 30)]]"

definition scenario_items :: matrix where
  "scenario_items = [[Fin 10, Fin 20, NaN], [Fin 30, Fin 10, Fin 20]]"

definition scenario_scores :: matrix where
  "scenario_scores = [[Fin 0.9, Fin 0.5, NaN], [Fin 0.8, Fin 0.1, Fin 0.1]]"

text \<open>A scoring function that gives every pair the same score.\<close>

definition constant_predict :: "f64 \<Rightarrow> pairs \<Rightarrow> f64 list" where
  "constant_predict v ps = replicate (length ps) v"

section \<open>Auxiliary facts\<close>

subsection \<open>The index dictionary and the rank column\<close>

lemma index_mapping_snoc: "index_mapping (xs @ [x]) = (index_mapping xs)(x \<mapsto> length xs)"
  by (simp add: index_mapping_def enumerate_append_eq)

lemma index_mapping_Nil: "index_mapping [] = Map.empty"
  by (simp add: index_mapping_def)

lemma index_mapping_None: "index_mapping xs k = None \<longleftrightarrow> k \<notin> set xs"
  by (induction xs rule: rev_induct) (auto simp: index_mapping_snoc index_mapping_Nil)

lemma index_mapping_SomeD:
  "index_mapping xs k = Some i \<Longrightarrow>
   i < length xs \<and> xs ! i = k \<and> (\<forall>j. i < j \<and> j < length xs \<longrightarrow> xs ! j \<noteq> k)"
proof (induction xs arbitrary: i rule: rev_induct)
  case Nil
  then show ?case by (simp add: index_mapping_Nil)
next
  case (snoc x xs)
  show ?case
  proof (cases "x = k")
    case True
    with snoc.prems have "i = length xs" by (simp add: index_mapping_snoc)
    with True show ?thesis by simp
  next
    case False
    with snoc.prems have "index_mapping xs k = Some i" by (simp add: index_mapping_snoc)
    from snoc.IH [OF this] False show ?thesis
      by (auto simp: nth_append less_Suc_eq)
  qed
qed

lemma index_mapping_last:
  "i < length xs \<Longrightarrow> \<forall>j. i < j \<and> j < length xs \<longrightarrow> xs ! j \<noteq> xs ! i \<Longrightarrow>
   index_mapping xs (xs ! i) = Some i"
proof -
  assume i: "i < length xs" and l: "\<forall>j. i < j \<and> j < length xs \<longrightarrow> xs ! j \<noteq> xs ! i"
  from i have "xs ! i \<in> set xs" by simp
  then obtain i' where s: "index_mapping xs (xs ! i) = Some i'"
    using index_mapping_None [of xs "xs ! i"] by (cases "index_mapping xs (xs ! i)") auto
  from index_mapping_SomeD [OF s] i l have "i' = i"
    by (metis linorder_neqE_nat)
  with s show ?thesis by simp
qed

lemma position_nth: "distinct xs \<Longrightarrow> c < length xs \<Longrightarrow> position xs (xs ! c) = c"
  unfolding position_def
  by (induction xs arbitrary: c) (auto simp: nth_Cons split: nat.splits)

lemma nth_position: "a \<in> set xs \<Longrightarrow> position xs a < length xs \<and> xs ! position xs a = a"
  unfolding position_def
  by (induction xs) auto

lemma position_filter:
  "distinct xs \<Longrightarrow> a \<in> set xs \<Longrightarrow> b \<in> set xs \<Longrightarrow> P a \<Longrightarrow> P b \<Longrightarrow>
   position (filter P xs) a < position (filter P xs) b \<longleftrightarrow> position xs a < position xs b"
  unfolding position_def
  by (induction xs) auto

lemma position_upt: "i < n \<Longrightarrow> position [0..<n] i = i"
  using position_nth [of "[0..<n]" i] by simp


lemma set_group_positions:
  "set (group_positions key df k) = {j. j < length df \<and> key (df ! j) = k}"
  by (auto simp: group_positions_def)

lemma distinct_group_positions: "distinct (group_positions key df k)"
  by (simp add: group_positions_def)

lemma set_rank_order:
  "set (rank_order key df k) = {j. j < length df \<and> key (df ! j) = k}"
  by (simp add: rank_order_def set_group_positions)

lemma distinct_rank_order: "distinct (rank_order key df k)"
  by (simp add: rank_order_def distinct_group_positions)

lemma rank_order_nth:
  "c < length (rank_order key df k) \<Longrightarrow>
   rank_order key df k ! c < length df \<and> key (df ! (rank_order key df k ! c)) = k"
  using set_rank_order [of key df k] nth_mem [of c "rank_order key df k"] by blast

lemma rank_of_nth:
  assumes "i < length df"
  shows "rank_order key df (key (df ! i)) ! (rank_of key df i - 1) = i"
    and "rank_of key df i \<le> length (rank_order key df (key (df ! i)))"
    and "0 < rank_of key df i"
proof -
  from assms have "i \<in> set (rank_order key df (key (df ! i)))"
    by (simp add: set_rank_order)
  from nth_position [OF this]
  show "rank_order key df (key (df ! i)) ! (rank_of key df i - 1) = i"
    and "rank_of key df i \<le> length (rank_order key df (key (df ! i)))"
    by (simp_all add: rank_of_def)
  show "0 < rank_of key df i" by (simp add: rank_of_def)
qed

lemma rank_of_rank_order:
  "c < length (rank_order key df k) \<Longrightarrow> rank_of key df (rank_order key df k ! c) = Suc c"
  using rank_order_nth [of c key df k] position_nth [OF distinct_rank_order, of c key df k]
  by (simp add: rank_of_def)

lemma rank_order_sorted:
  "c1 \<le> c2 \<Longrightarrow> c2 < length (rank_order key df k) \<Longrightarrow>
   desc_key (predicted (df ! (rank_order key df k ! c1)))
     \<le> desc_key (predicted (df ! (rank_order key df k ! c2)))"
proof -
  assume a: "c1 \<le> c2" "c2 < length (rank_order key df k)"
  have "sorted (map (\<lambda>j. desc_key (predicted (df ! j))) (rank_order key df k))"
    by (simp add: rank_order_def)
  from sorted_nth_mono [OF this, of c1 c2] a show ?thesis by simp
qed

lemma desc_key_le: "a \<noteq> NaN \<Longrightarrow> b \<noteq> NaN \<Longrightarrow> desc_key a \<le> desc_key b \<longleftrightarrow> f64_le b a"
  by (cases a; cases b) simp_all

lemma rank_of_tie:
  assumes ij: "i < j" "j < length df"
    and key: "key (df ! i) = key (df ! j)"
    and sc: "predicted (df ! i) = predicted (df ! j)"
  shows "rank_of key df i < rank_of key df j"
proof -
  let ?f = "\<lambda>j. desc_key (predicted (df ! j))"
  let ?k = "key (df ! j)"
  let ?G = "group_positions key df ?k"
  let ?O = "rank_order key df ?k"
  let ?P = "\<lambda>y. ?f y = ?f j"
  let ?Q = "\<lambda>y. key (df ! y) = ?k"
  have iG: "i \<in> set ?G" and jG: "j \<in> set ?G"
    using ij key by (simp_all add: set_group_positions)
  have iO: "i \<in> set ?O" and jO: "j \<in> set ?O"
    using ij key by (simp_all add: set_rank_order)
  have Pi: "?P i" and Pj: "?P j" using sc by simp_all
  have "position ?O i < position ?O j \<longleftrightarrow>
        position (filter ?P ?O) i < position (filter ?P ?O) j"
    using position_filter [OF distinct_rank_order iO jO, of ?P] Pi Pj by simp
  also have "filter ?P ?O = filter ?P ?G"
    unfolding rank_order_def by (rule sort_key_stable)
  also have "position (filter ?P ?G) i < position (filter ?P ?G) j \<longleftrightarrow>
             position ?G i < position ?G j"
    using position_filter [OF distinct_group_positions iG jG, of ?P] Pi Pj by simp
  also have "\<dots> \<longleftrightarrow> position [0..<length df] i < position [0..<length df] j"
    unfolding group_positions_def
    using position_filter [of "[0..<length df]" i j ?Q] ij key by simp
  also have "\<dots> \<longleftrightarrow> i < j"
    using ij by (simp add: position_upt)
  finally show ?thesis using ij key by (simp add: rank_of_def)
qed

subsection \<open>The loop that fills the arrays\<close>

lemma map_length_update2:
  "i < length A \<Longrightarrow> map length (A[i := (A ! i)[c := v]]) = map length A"
  by (simp add: map_update list_update_same_conv)

lemma itertuples_loop_shape:
  "itertuples_loop key item im ws (A, B) = Inr (A', B') \<Longrightarrow>
   map length A' = map length A \<and> map length B' = map length B"
proof (induction ws arbitrary: A B)
  case Nil
  then show ?case by simp
next
  case (Cons w ws)
  obtain x rk where w: "w = (x, rk)" by (cases w)
  from Cons.prems w obtain i0 where
    i0: "im (uint (key x)) = Some i0" "i0 < length A" "i0 < length B"
    and rest: "itertuples_loop key item im ws
        (A[i0 := (A ! i0)[rk - 1 := id_cell (item x)]],
         B[i0 := (B ! i0)[rk - 1 := predicted x]]) = Inr (A', B')"
    by (auto simp: Let_def split: option.splits if_splits)
  from Cons.IH [OF rest] i0 show ?case
    by (simp add: map_length_update2)
qed

lemma itertuples_loop_untouched:
  "itertuples_loop key item im ws (A, B) = Inr (A', B') \<Longrightarrow>
   \<forall>(x, rk) \<in> set ws. \<not> (im (uint (key x)) = Some r \<and> rk - 1 = c) \<Longrightarrow>
   A' ! r ! c = A ! r ! c \<and> B' ! r ! c = B ! r ! c"
proof (induction ws arbitrary: A B)
  case Nil
  then show ?case by simp
next
  case (Cons w ws)
  obtain x rk where w: "w = (x, rk)" by (cases w)
  from Cons.prems(1) w obtain i0 where
    i0: "im (uint (key x)) = Some i0" "i0 < length A" "i0 < length B"
    and rest: "itertuples_loop key item im ws
        (A[i0 := (A ! i0)[rk - 1 := id_cell (item x)]],
         B[i0 := (B ! i0)[rk - 1 := predicted x]]) = Inr (A', B')"
    by (auto simp: Let_def split: option.splits if_splits)
  from Cons.prems(2) have tl: "\<forall>(x, rk) \<in> set ws. \<not> (im (uint (key x)) = Some r \<and> rk - 1 = c)"
    by simp
  from Cons.prems(2) w i0 have ne: "i0 \<noteq> r \<or> rk - 1 \<noteq> c" by auto
  have "A[i0 := (A ! i0)[rk - 1 := id_cell (item x)]] ! r ! c = A ! r ! c"
    using ne i0 by (cases "i0 = r") auto
  moreover have "B[i0 := (B ! i0)[rk - 1 := predicted x]] ! r ! c = B ! r ! c"
    using ne i0 by (cases "i0 = r") auto
  ultimately show ?case using Cons.IH [OF rest tl] by simp
qed

lemma itertuples_loop_written:
  "itertuples_loop key item im ws (A, B) = Inr (A', B') \<Longrightarrow>
   distinct (map (\<lambda>(x, rk). (key x, rk - 1)) ws) \<Longrightarrow>
   \<forall>(k1::u32) (k2::u32) r. im (uint k1) = Some r \<longrightarrow> im (uint k2) = Some r \<longrightarrow> k1 = k2 \<Longrightarrow>
   (x, rk) \<in> set ws \<Longrightarrow> im (uint (key x)) = Some r \<Longrightarrow>
   A' ! r ! (rk - 1) = id_cell (item x) \<and> B' ! r ! (rk - 1) = predicted x"
proof (induction ws arbitrary: A B)
  case Nil
  then show ?case by simp
next
  case (Cons w ws)
  obtain y ry where w: "w = (y, ry)" by (cases w)
  from Cons.prems(1) w obtain i0 where
    i0: "im (uint (key y)) = Some i0" "i0 < length A" "i0 < length B"
      "ry - 1 < length (A ! i0)" "ry - 1 < length (B ! i0)"
    and rest: "itertuples_loop key item im ws
        (A[i0 := (A ! i0)[ry - 1 := id_cell (item y)]],
         B[i0 := (B ! i0)[ry - 1 := predicted y]]) = Inr (A', B')"
    by (auto simp: Let_def split: option.splits if_splits)
  from Cons.prems(2) have d: "distinct (map (\<lambda>(x, rk). (key x, rk - 1)) ws)" by simp
  show ?case
  proof (cases "(x, rk) \<in> set ws")
    case True
    from Cons.IH [OF rest d Cons.prems(3) True Cons.prems(5)] show ?thesis .
  next
    case False
    with Cons.prems(4) w have eq: "y = x" "ry = rk" by auto
    have "\<forall>(z, rz) \<in> set ws. \<not> (im (uint (key z)) = Some r \<and> rz - 1 = rk - 1)"
    proof (clarify)
      fix z rz assume z: "(z, rz) \<in> set ws" "im (uint (key z)) = Some r" "rz - 1 = rk - 1"
      from Cons.prems(3) z(2) Cons.prems(5) have "key z = key x" by blast
      with z(1,3) have "(key x, rk - 1) \<in> set (map (\<lambda>(x, rk). (key x, rk - 1)) ws)"
        by force
      with Cons.prems(2) w eq show False by simp
    qed
    from itertuples_loop_untouched [OF rest this] i0 eq Cons.prems(5)
    show ?thesis by simp
  qed
qed


lemma ranked_eq:
  "zip df (groupby_rank key df) = map (\<lambda>i. (df ! i, rank_of key df i)) [0..<length df]"
  by (rule nth_equalityI) (simp_all add: groupby_rank_def)

lemma rank_of_inj:
  assumes "i < length df" "j < length df" "key (df ! i) = key (df ! j)"
    and "rank_of key df i - 1 = rank_of key df j - 1"
  shows "i = j"
proof -
  have "i = rank_order key df (key (df ! i)) ! (rank_of key df i - 1)"
    by (rule rank_of_nth(1) [OF assms(1), symmetric])
  also have "\<dots> = rank_order key df (key (df ! j)) ! (rank_of key df j - 1)"
    by (simp only: assms(3,4))
  also have "\<dots> = j"
    by (rule rank_of_nth(1) [OF assms(2)])
  finally show ?thesis .
qed

lemma distinct_ranked:
  "distinct (map (\<lambda>(x, rk). (key x, rk - 1)) (zip df (groupby_rank key df)))"
proof -
  have "inj_on (\<lambda>i. (key (df ! i), rank_of key df i - 1)) (set [0..<length df])"
  proof (rule inj_onI)
    fix x y
    assume "x \<in> set [0..<length df]" "y \<in> set [0..<length df]"
      and "(key (df ! x), rank_of key df x - 1) = (key (df ! y), rank_of key df y - 1)"
    then show "x = y"
      using rank_of_inj [of x df y key] by simp
  qed
  then have "distinct (map (\<lambda>i. (key (df ! i), rank_of key df i - 1)) [0..<length df])"
    by (simp add: distinct_map)
  then show ?thesis
    by (simp add: ranked_eq comp_def)
qed

lemma index_mapping_inj:
  "index_mapping xs (uint (k1::u32)) = Some r \<Longrightarrow> index_mapping xs (uint (k2::u32)) = Some r \<Longrightarrow>
   k1 = k2"
proof -
  assume "index_mapping xs (uint k1) = Some r" "index_mapping xs (uint k2) = Some r"
  then have "uint k1 = uint k2"
    using index_mapping_SomeD [of xs "uint k1" r] index_mapping_SomeD [of xs "uint k2" r]
    by simp
  then show "k1 = k2" by (rule word_uint_eqI)
qed

lemma rank_and_fill_shape:
  assumes "rank_and_fill key item im n df maxsize = Inr (A', B')"
  shows "0 \<le> maxsize"
    and "map length A' = replicate n (nat maxsize)"
    and "map length B' = replicate n (nat maxsize)"
proof -
  from assms show m: "0 \<le> maxsize"
    by (auto simp: rank_and_fill_def split: if_splits)
  have "map length A' = map length (full n (nat maxsize)) \<and>
        map length B' = map length (full n (nat maxsize))"
  proof (cases "df = []")
    case True
    with assms m show ?thesis by (auto simp: rank_and_fill_def)
  next
    case False
    with assms m show ?thesis
      by (auto simp: rank_and_fill_def Let_def dest: itertuples_loop_shape)
  qed
  then show "map length A' = replicate n (nat maxsize)"
    and "map length B' = replicate n (nat maxsize)"
    by (simp_all add: full_def)
qed

lemma rank_and_fill_hit:
  assumes res: "rank_and_fill key item im n df maxsize = Inr (A', B')"
    and inj: "\<forall>(k1::u32) (k2::u32) r. im (uint k1) = Some r \<longrightarrow> im (uint k2) = Some r \<longrightarrow> k1 = k2"
    and i: "i < length df" "int (rank_of key df i) \<le> maxsize"
    and r: "im (uint (key (df ! i))) = Some r"
  shows "A' ! r ! (rank_of key df i - 1) = id_cell (item (df ! i)) \<and>
         B' ! r ! (rank_of key df i - 1) = predicted (df ! i)"
proof -
  let ?ws = "filter (\<lambda>(r, rank). int rank \<le> maxsize) (zip df (groupby_rank key df))"
  from i(1) have ne: "df \<noteq> []" by auto
  from res ne have loop: "itertuples_loop key item im ?ws
      (full n (nat maxsize), full n (nat maxsize)) = Inr (A', B')"
    by (auto simp: rank_and_fill_def Let_def split: if_splits)
  have d: "distinct (map (\<lambda>(x, rk). (key x, rk - 1)) ?ws)"
    by (rule distinct_map_filter) (rule distinct_ranked)
  have "(df ! i, rank_of key df i) \<in> set (zip df (groupby_rank key df))"
    using i(1) by (auto simp: ranked_eq)
  with i(2) have mem: "(df ! i, rank_of key df i) \<in> set ?ws" by simp
  from itertuples_loop_written [OF loop d inj mem r] show ?thesis .
qed

lemma rank_and_fill_miss:
  assumes res: "rank_and_fill key item im n df maxsize = Inr (A', B')"
    and no: "\<forall>i<length df. \<not> (int (rank_of key df i) \<le> maxsize \<and>
               im (uint (key (df ! i))) = Some r \<and> rank_of key df i - 1 = c)"
    and rc: "r < n" "c < nat maxsize"
  shows "A' ! r ! c = NaN \<and> B' ! r ! c = NaN"
proof (cases "df = []")
  case True
  with res rc show ?thesis
    by (auto simp: rank_and_fill_def full_def split: if_splits)
next
  case False
  let ?ws = "filter (\<lambda>(r, rank). int rank \<le> maxsize) (zip df (groupby_rank key df))"
  from res False have loop: "itertuples_loop key item im ?ws
      (full n (nat maxsize), full n (nat maxsize)) = Inr (A', B')"
    by (auto simp: rank_and_fill_def Let_def split: if_splits)
  have "\<forall>(x, rk) \<in> set ?ws. \<not> (im (uint (key x)) = Some r \<and> rk - 1 = c)"
    using no by (auto simp: ranked_eq)
  from itertuples_loop_untouched [OF loop this] rc show ?thesis
    by (simp add: full_def)
qed

lemma uint32_uint: "uint32 (uint (w::u32)) = w"
  by (simp add: uint32_def)

lemma rank_and_fill_cell:
  assumes res: "rank_and_fill key item (index_mapping srcs) (length srcs) df maxsize = Inr (A', B')"
    and rc: "r < length srcs" "c < nat maxsize"
  shows "A' ! r ! c =
           (if index_mapping srcs (uint (uint32 (srcs ! r))) = Some r \<and>
               c < length (rank_order key df (uint32 (srcs ! r)))
            then id_cell (item (df ! (rank_order key df (uint32 (srcs ! r)) ! c))) else NaN) \<and>
         B' ! r ! c =
           (if index_mapping srcs (uint (uint32 (srcs ! r))) = Some r \<and>
               c < length (rank_order key df (uint32 (srcs ! r)))
            then predicted (df ! (rank_order key df (uint32 (srcs ! r)) ! c)) else NaN)"
proof (cases "index_mapping srcs (uint (uint32 (srcs ! r))) = Some r \<and>
               c < length (rank_order key df (uint32 (srcs ! r)))")
  case True
  let ?k = "uint32 (srcs ! r)"
  let ?i = "rank_order key df ?k ! c"
  from True have c: "c < length (rank_order key df ?k)" by simp
  from rank_order_nth [OF c] have i: "?i < length df" "key (df ! ?i) = ?k" by simp_all
  from rank_of_rank_order [OF c] have rk: "rank_of key df ?i = Suc c" .
  have inj: "\<forall>(k1::u32) (k2::u32) r. index_mapping srcs (uint k1) = Some r \<longrightarrow>
      index_mapping srcs (uint k2) = Some r \<longrightarrow> k1 = k2"
    by (blast intro: index_mapping_inj)
  from rc(2) rk have le: "int (rank_of key df ?i) \<le> maxsize" by simp
  from True i(2) have own: "index_mapping srcs (uint (key (df ! ?i))) = Some r" by simp
  from rank_and_fill_hit [OF res inj i(1) le own] rk True show ?thesis by simp
next
  case False
  have "\<forall>i<length df. \<not> (int (rank_of key df i) \<le> maxsize \<and>
          index_mapping srcs (uint (key (df ! i))) = Some r \<and> rank_of key df i - 1 = c)"
  proof (intro allI impI notI)
    fix i assume i: "i < length df"
      and h: "int (rank_of key df i) \<le> maxsize \<and>
          index_mapping srcs (uint (key (df ! i))) = Some r \<and> rank_of key df i - 1 = c"
    from h index_mapping_SomeD [of srcs "uint (key (df ! i))" r]
    have "srcs ! r = uint (key (df ! i))" by simp
    then have k: "uint32 (srcs ! r) = key (df ! i)" by (simp add: uint32_uint)
    have "rank_of key df i \<le> length (rank_order key df (key (df ! i)))"
      and "0 < rank_of key df i"
      by (rule rank_of_nth(2) [OF i], rule rank_of_nth(3) [OF i])
    moreover from h have "rank_of key df i - 1 = c" by simp
    ultimately have "c < length (rank_order key df (key (df ! i)))" by linarith
    with k have "c < length (rank_order key df (uint32 (srcs ! r)))" by simp
    with h k False show False by simp
  qed
  from rank_and_fill_miss [OF res this rc] show ?thesis
    unfolding if_not_P [OF False] .
qed

subsection \<open>Chunks and slices\<close>

lemma chunks_simps':
  "chunks n [] = []" "chunks 0 xs = []"
  "0 < n \<Longrightarrow> xs \<noteq> [] \<Longrightarrow> chunks n xs = take n xs # chunks n (drop n xs)"
  by simp_all

declare chunks.simps [simp del]

lemma slice_arith: "min (a + n) (l - n) - a = min (a + n + n) l - (a + (n::nat))"
  by arith

lemma chunks_nth:
  "0 < n \<Longrightarrow> i < length (chunks n xs) \<Longrightarrow>
   chunks n xs ! i = py_slice xs (i * n) (min ((i + 1) * n) (length xs))"
proof (induction n xs arbitrary: i rule: chunks.induct)
  case (1 n xs)
  show ?case
  proof (cases "xs = []")
    case True
    with 1(3) show ?thesis by (simp add: chunks_simps')
  next
    case False
    with 1(2) have ch: "chunks n xs = take n xs # chunks n (drop n xs)"
      by (simp add: chunks_simps')
    show ?thesis
    proof (cases i)
      case 0
      with ch show ?thesis by (simp add: py_slice_def min_def)
    next
      case (Suc j)
      with 1(3) ch have j: "j < length (chunks n (drop n xs))" by simp
      have c: "\<not> (n = 0 \<or> xs = [])" using 1(2) False by simp
      have "chunks n (drop n xs) ! j =
        py_slice (drop n xs) (j * n) (min ((j + 1) * n) (length (drop n xs)))"
        by (rule 1(1) [OF c 1(2) j])
      also have "\<dots> = take (min (j * n + n) (length xs - n) - j * n) (drop (j * n + n) xs)"
        by (simp add: py_slice_def add.commute)
      also have "\<dots> = take (min (j * n + n + n) (length xs) - (j * n + n)) (drop (j * n + n) xs)"
        by (simp only: slice_arith)
      also have "\<dots> = py_slice xs (i * n) (min ((i + 1) * n) (length xs))"
        unfolding Suc py_slice_def by (simp add: add.commute)
      finally show ?thesis using ch Suc by simp
    qed
  qed
qed


lemma concat_chunks: "0 < n \<Longrightarrow> concat (chunks n xs) = xs"
proof (induction n xs rule: chunks.induct)
  case (1 n xs)
  then show ?case
    by (cases "xs = []") (simp_all add: chunks_simps')
qed

lemma ceil_div_step:
  assumes "0 < n" "n < m"
  shows "(m + n - 1) div n = Suc ((m - n + n - 1) div (n::nat))"
proof -
  from assms(2) obtain k where m: "m = Suc (k + n)"
    by (metis add.commute less_imp_Suc_add add_Suc_right)
  have "(Suc (k + n) + n - 1) div n = Suc ((Suc (k + n) - n + n - 1) div n)"
    using assms(1) by simp
  then show ?thesis unfolding m .
qed

lemma ceil_div_one:
  assumes "0 < m" "m \<le> n"
  shows "(m + n - 1) div n = Suc 0"
proof -
  from assms have "n * 1 \<le> m + n - 1" "m + n - 1 < n * Suc 1"
    by simp_all
  then have "(m + n - 1) div n = 1"
    by (rule div_nat_eqI)
  then show ?thesis by simp
qed

lemma length_chunks: "0 < n \<Longrightarrow> length (chunks n xs) = (length xs + n - 1) div n"
proof (induction n xs rule: chunks.induct)
  case (1 n xs)
  show ?case
  proof (cases "xs = []")
    case True
    with 1(2) show ?thesis by (simp add: chunks_simps')
  next
    case False
    then have ch: "chunks n xs = take n xs # chunks n (drop n xs)"
      using 1(2) by (simp add: chunks_simps')
    have c: "\<not> (n = 0 \<or> xs = [])" using 1(2) False by simp
    have IH: "length (chunks n (drop n xs)) = (length (drop n xs) + n - 1) div n"
      by (rule 1(1) [OF c 1(2)])
    show ?thesis
    proof (cases "length xs \<le> n")
      case True
      from False have "0 < length xs" by simp
      from ceil_div_one [OF this True] True ch show ?thesis
        by (simp add: chunks_simps')
    next
      case False
      then have "n < length xs" by simp
      from ceil_div_step [OF 1(2) this] IH ch show ?thesis by simp
    qed
  qed
qed

lemma chunks_batches:
  assumes "0 < n"
  shows "map (\<lambda>i. py_slice xs (i * n) (min ((i + 1) * n) (length xs)))
           [0..<(length xs + n - 1) div n] = chunks n xs"
proof (rule nth_equalityI)
  show "length (map (\<lambda>i. py_slice xs (i * n) (min ((i + 1) * n) (length xs)))
           [0..<(length xs + n - 1) div n]) = length (chunks n xs)"
    using assms by (simp add: length_chunks)
next
  fix i
  assume "i < length (map (\<lambda>i. py_slice xs (i * n) (min ((i + 1) * n) (length xs)))
           [0..<(length xs + n - 1) div n])"
  then have i: "i < length (chunks n xs)" using assms by (simp add: length_chunks)
  then have i': "i < (length xs + n - 1) div n" using assms by (simp add: length_chunks)
  show "map (\<lambda>i. py_slice xs (i * n) (min ((i + 1) * n) (length xs)))
           [0..<(length xs + n - 1) div n] ! i = chunks n xs ! i"
    using chunks_nth [OF assms i] i' by simp
qed


lemma concat_map_chunks_nth:
  "0 < n \<Longrightarrow> \<forall>b \<in> set (chunks n xs). length (g b) = length b \<Longrightarrow> i < length xs \<Longrightarrow>
   i div n < length (chunks n xs) \<and>
   i mod n < length (chunks n xs ! (i div n)) \<and>
   chunks n xs ! (i div n) ! (i mod n) = xs ! i \<and>
   concat (map g (chunks n xs)) ! i = g (chunks n xs ! (i div n)) ! (i mod n)"
proof (induction n xs arbitrary: i rule: chunks.induct)
  case (1 n xs)
  from 1(4) have ne: "xs \<noteq> []" by auto
  with 1(2) have ch: "chunks n xs = take n xs # chunks n (drop n xs)"
    by (simp add: chunks_simps')
  from 1(3) ch have g0: "length (g (take n xs)) = min (length xs) n"
    and gs: "\<forall>b \<in> set (chunks n (drop n xs)). length (g b) = length b"
    by simp_all
  show ?case
  proof (cases "i < n")
    case True
    with 1(4) g0 have "i < length (g (take n xs))" by simp
    with True 1(4) ch show ?thesis by (simp add: nth_append)
  next
    case False
    then have ni: "n \<le> i" by simp
    with 1(4) have len: "length (g (take n xs)) = n" using g0 by simp
    have c: "\<not> (n = 0 \<or> xs = [])" using 1(2) ne by simp
    from 1(4) ni have i': "i - n < length (drop n xs)" by simp
    note IH = 1(1) [OF c 1(2) gs i']
    from ni 1(2) have dv: "i div n = Suc ((i - n) div n)"
      by (simp add: le_div_geq)
    from ni 1(2) have md: "i mod n = (i - n) mod n"
      by (simp add: le_mod_geq)
    from IH ni 1(4) show ?thesis
      unfolding dv md ch by (simp add: nth_append len)
  qed
qed

lemma length_concat_map_chunks:
  "0 < n \<Longrightarrow> \<forall>b \<in> set (chunks n xs). length (g b) = length b \<Longrightarrow>
   length (concat (map g (chunks n xs))) = length xs"
proof -
  assume n: "0 < n" and g: "\<forall>b \<in> set (chunks n xs). length (g b) = length b"
  then have "map length (map g (chunks n xs)) = map length (chunks n xs)" by simp
  then have "length (concat (map g (chunks n xs))) = length (concat (chunks n xs))"
    by (simp only: length_concat)
  with n show ?thesis by (simp add: concat_chunks)
qed


subsection \<open>Both directions at once\<close>

lemma helper_eq:
  "helper t predict targets maxsize batch =
     rank_batch (key_of t) (item_of t) predict (pairs_of t batch targets) batch
       (width maxsize targets)"
  by (simp add: helper_def rank_batch_def recommend_for_users_def recommend_for_movies_def
      key_of_def item_of_def pairs_of_def width_def frame_def Let_def)

lemma helper_movie: "helper ''movie'' p tg m = (\<lambda>b. recommend_for_users p b tg m)"
  by (rule ext) (simp add: helper_def)

lemma helper_user: "helper ''user'' p tg m = (\<lambda>b. recommend_for_movies p b tg m)"
  by (rule ext) (simp add: helper_def)

lemma recommend_eq:
  assumes "t = ''movie'' \<or> t = ''user''"
  shows "recommend predict t users movies maxsize =
     check_rows (length (sources_of t users movies))
       (batch_loop (helper t predict (targets_of t users movies) maxsize)
          (sources_of t users movies)
          [0..<n_batches (length (sources_of t users movies))] ([], None))"
proof -
  from assms consider "t = ''movie''" | "t = ''user''" by blast
  then show ?thesis
  proof cases
    case 1
    then show ?thesis
      by (simp add: recommend_def helper_movie sources_of_def targets_of_def)
  next
    case 2
    then show ?thesis
      by (simp add: recommend_def helper_user sources_of_def targets_of_def)
  qed
qed

subsection \<open>The batch loop\<close>

lemma vstack_Inr: "vstack a b = Inr c \<Longrightarrow> c = a @ b"
  by (simp add: vstack_def split: if_splits)

lemma batch_loop_step:
  "(\<exists>e. batch_loop f srcs (i # is) (calls, acc) =
      (calls @ [fst (f (py_slice srcs (i * batch_num)
                  (min ((i + 1) * batch_num) (length srcs))))], Inl e)) \<or>
   (\<exists>acc1. batch_loop f srcs (i # is) (calls, acc) =
      batch_loop f srcs is
        (calls @ [fst (f (py_slice srcs (i * batch_num)
                  (min ((i + 1) * batch_num) (length srcs))))], acc1))"
proof -
  let ?b = "py_slice srcs (i * batch_num) (min ((i + 1) * batch_num) (length srcs))"
  obtain call sub where f: "f ?b = (call, sub)" by (cases "f ?b")
  have "(\<exists>e. batch_loop f srcs (i # is) (calls, acc) = (calls @ [call], Inl e)) \<or>
   (\<exists>acc1. batch_loop f srcs (i # is) (calls, acc) =
      batch_loop f srcs is (calls @ [call], acc1))"
  proof (cases sub)
    case (Inl e)
    with f show ?thesis by (auto simp: Let_def)
  next
    case (Inr s)
    obtain A B where s: "s = (A, B)" by (cases s)
    show ?thesis
    proof (cases acc)
      case None
      with f Inr s show ?thesis by (auto simp: Let_def)
    next
      case (Some a)
      obtain RA RB where a: "a = (RA, RB)" by (cases a)
      show ?thesis
      proof (cases "vstack RA A")
        case (Inl e)
        with f Inr s Some a show ?thesis by (auto simp: Let_def)
      next
        case A': (Inr A')
        show ?thesis
        proof (cases "vstack RB B")
          case (Inl e)
          with f Inr s Some a A' show ?thesis by (auto simp: Let_def)
        next
          case B': (Inr B')
          with f Inr s Some a A' show ?thesis by (auto simp: Let_def)
        qed
      qed
    qed
  qed
  moreover from f have "call = fst (f ?b)" by simp
  ultimately show ?thesis by simp
qed

lemma batch_loop_calls_subset:
  "set (fst (batch_loop f srcs is (calls, acc))) \<subseteq>
     set calls \<union> (\<lambda>i. fst (f (py_slice srcs (i * batch_num)
                                (min ((i + 1) * batch_num) (length srcs))))) ` set is"
proof (induction "is" arbitrary: calls acc)
  case Nil
  then show ?case by simp
next
  case (Cons i "is")
  let ?c = "fst (f (py_slice srcs (i * batch_num) (min ((i + 1) * batch_num) (length srcs))))"
  from batch_loop_step [of f srcs i "is" calls acc]
  consider e where "batch_loop f srcs (i # is) (calls, acc) = (calls @ [?c], Inl e)"
    | acc1 where "batch_loop f srcs (i # is) (calls, acc) =
        batch_loop f srcs is (calls @ [?c], acc1)"
    by blast
  then show ?case
  proof cases
    case 1
    then show ?thesis by auto
  next
    case 2
    have "set (fst (batch_loop f srcs is (calls @ [?c], acc1))) \<subseteq>
      set (calls @ [?c]) \<union> (\<lambda>i. fst (f (py_slice srcs (i * batch_num)
                                (min ((i + 1) * batch_num) (length srcs))))) ` set is"
      by (rule Cons.IH)
    then show ?thesis unfolding 2 by auto
  qed
qed

lemma batch_loop_Inr:
  assumes "batch_loop f srcs is (calls, acc) = (calls', Inr acc')"
  shows "calls' = calls @ map (\<lambda>i. fst (f (py_slice srcs (i * batch_num)
                                (min ((i + 1) * batch_num) (length srcs))))) is"
    and "\<forall>i \<in> set is. \<exists>s. snd (f (py_slice srcs (i * batch_num)
                                (min ((i + 1) * batch_num) (length srcs)))) = Inr s"
    and "(case acc' of None \<Rightarrow> [] | Some (a, b) \<Rightarrow> a) =
         (case acc of None \<Rightarrow> [] | Some (a, b) \<Rightarrow> a) @
         concat (map (\<lambda>i. fst (projr (snd (f (py_slice srcs (i * batch_num)
                                (min ((i + 1) * batch_num) (length srcs))))))) is)"
    and "(case acc' of None \<Rightarrow> [] | Some (a, b) \<Rightarrow> b) =
         (case acc of None \<Rightarrow> [] | Some (a, b) \<Rightarrow> b) @
         concat (map (\<lambda>i. snd (projr (snd (f (py_slice srcs (i * batch_num)
                                (min ((i + 1) * batch_num) (length srcs))))))) is)"
    and "acc' = None \<longleftrightarrow> acc = None \<and> is = []"
  using assms
proof (induction "is" arbitrary: calls acc)
  case Nil
  {
    case 1 then show ?case by simp
  next
    case 2 then show ?case by simp
  next
    case 3 then show ?case by simp
  next
    case 4 then show ?case by simp
  next
    case 5 then show ?case by auto
  }
next
  case (Cons i "is")
  let ?b = "py_slice srcs (i * batch_num) (min ((i + 1) * batch_num) (length srcs))"
  have step: "\<exists>A B acc1. f ?b = (fst (f ?b), Inr (A, B)) \<and>
      (case acc1 of None \<Rightarrow> [] | Some (a, b) \<Rightarrow> a)
         = (case acc of None \<Rightarrow> [] | Some (a, b) \<Rightarrow> a) @ A \<and>
      (case acc1 of None \<Rightarrow> [] | Some (a, b) \<Rightarrow> b)
         = (case acc of None \<Rightarrow> [] | Some (a, b) \<Rightarrow> b) @ B \<and> acc1 \<noteq> None \<and>
      batch_loop f srcs is (calls @ [fst (f ?b)], acc1) = (calls', Inr acc')"
    if h: "batch_loop f srcs (i # is) (calls, acc) = (calls', Inr acc')" for calls acc
  proof -
    obtain call sub where f: "f ?b = (call, sub)" by (cases "f ?b")
    from h f obtain A B where sub: "sub = Inr (A, B)"
      by (cases sub) (auto simp: Let_def)
    show ?thesis
    proof (cases acc)
      case None
      with h f sub show ?thesis
        by (intro exI [of _ A] exI [of _ B] exI [of _ "Some (A, B)"]) (simp add: Let_def)
    next
      case (Some a)
      obtain RA RB where a: "a = (RA, RB)" by (cases a)
      from h f sub Some a obtain A' where A': "vstack RA A = Inr A'"
        by (cases "vstack RA A") (auto simp: Let_def)
      from h f sub Some a A' obtain B' where B': "vstack RB B = Inr B'"
        by (cases "vstack RB B") (auto simp: Let_def)
      from h f sub Some a A' B' vstack_Inr [OF A'] vstack_Inr [OF B'] show ?thesis
        by (intro exI [of _ A] exI [of _ B] exI [of _ "Some (A', B')"]) (simp add: Let_def)
    qed
  qed
  {
    case 1
    from step [OF 1] obtain A B acc1 where
      s: "f ?b = (fst (f ?b), Inr (A, B))"
      "batch_loop f srcs is (calls @ [fst (f ?b)], acc1) = (calls', Inr acc')" by blast
    from Cons.IH(1) [OF s(2)] show ?case by simp
  next
    case 2
    from step [OF 2] obtain A B acc1 where
      s: "f ?b = (fst (f ?b), Inr (A, B))"
      "batch_loop f srcs is (calls @ [fst (f ?b)], acc1) = (calls', Inr acc')" by blast
    from s(1) have "snd (f ?b) = Inr (A, B)" by (metis snd_conv)
    with Cons.IH(2) [OF s(2)] show ?case by auto
  next
    case 3
    from step [OF 3] obtain A B acc1 where
      s: "f ?b = (fst (f ?b), Inr (A, B))"
      "(case acc1 of None \<Rightarrow> [] | Some (a, b) \<Rightarrow> a)
         = (case acc of None \<Rightarrow> [] | Some (a, b) \<Rightarrow> a) @ A"
      "batch_loop f srcs is (calls @ [fst (f ?b)], acc1) = (calls', Inr acc')" by blast
    from s(1) have "snd (f ?b) = Inr (A, B)" by (metis snd_conv)
    with Cons.IH(3) [OF s(3)] s(2) show ?case by simp
  next
    case 4
    from step [OF 4] obtain A B acc1 where
      s: "f ?b = (fst (f ?b), Inr (A, B))"
      "(case acc1 of None \<Rightarrow> [] | Some (a, b) \<Rightarrow> b)
         = (case acc of None \<Rightarrow> [] | Some (a, b) \<Rightarrow> b) @ B"
      "batch_loop f srcs is (calls @ [fst (f ?b)], acc1) = (calls', Inr acc')" by blast
    from s(1) have "snd (f ?b) = Inr (A, B)" by (metis snd_conv)
    with Cons.IH(4) [OF s(3)] s(2) show ?case by simp
  next
    case 5
    from step [OF 5] obtain A B acc1 where
      s: "acc1 \<noteq> None"
      "batch_loop f srcs is (calls @ [fst (f ?b)], acc1) = (calls', Inr acc')" by blast
    from Cons.IH(5) [OF s(2)] s(1) show ?case by simp
  }
qed

subsection \<open>One batch\<close>

lemma rank_batch_Inr:
  assumes "rank_batch key item predict call batch maxsize = (c, Inr (A, B))"
  shows "c = call" and "length (predict call) = length call" and "call \<noteq> []"
    and "rank_and_fill key item (index_mapping batch) (length batch)
           (frame predict call) maxsize = Inr (A, B)"
  using assms by (auto simp: rank_batch_def split: if_splits)

lemma rank_batch_shape:
  assumes "rank_batch key item predict call batch maxsize = (c, Inr (A, B))"
  shows "length A = length batch" and "length B = length batch" and "0 \<le> maxsize"
    and "r < length batch \<Longrightarrow> length (A ! r) = nat maxsize"
    and "r < length batch \<Longrightarrow> length (B ! r) = nat maxsize"
proof -
  note rf = rank_batch_Inr(4) [OF assms]
  note sh = rank_and_fill_shape [OF rf]
  from sh(2) have "length (map length A) = length batch"
    by simp
  then show a: "length A = length batch" by simp
  from sh(3) have "length (map length B) = length batch"
    by simp
  then show b: "length B = length batch" by simp
  show "0 \<le> maxsize" by (rule sh(1))
  show "length (A ! r) = nat maxsize" if "r < length batch"
  proof -
    from that a have "map length A ! r = length (A ! r)" by simp
    with sh(2) that show ?thesis by simp
  qed
  show "length (B ! r) = nat maxsize" if "r < length batch"
  proof -
    from that b have "map length B ! r = length (B ! r)" by simp
    with sh(3) that show ?thesis by simp
  qed
qed

lemma frame_not_NaN: "x \<in> set (frame predict call) \<Longrightarrow> predicted x \<noteq> NaN"
  by (simp add: frame_def dropna_def)

lemma frame_nth_not_NaN: "j < length (frame predict call) \<Longrightarrow> predicted (frame predict call ! j) \<noteq> NaN"
  using frame_not_NaN [of "frame predict call ! j" predict call] by simp

lemma frame_origin:
  assumes "x \<in> set (frame predict call)"
  shows "\<exists>p<length call. p < length (predict call) \<and> predict call ! p \<noteq> NaN \<and>
           x = \<lparr>userId = fst (call ! p), movieId = snd (call ! p),
                predicted = predict call ! p\<rparr>"
proof -
  from assms have x: "x \<in> set (make_table call (predict call))" and n: "predicted x \<noteq> NaN"
    by (simp_all add: frame_def dropna_def)
  from x obtain q where q: "q \<in> set (zip call (predict call))"
    and xq: "x = (\<lambda>((u, m), s). \<lparr>userId = u, movieId = m, predicted = s\<rparr>) q"
    by (auto simp: make_table_def)
  from q obtain p where p: "p < length call" "p < length (predict call)"
    "q = (call ! p, predict call ! p)"
    by (auto simp: in_set_zip)
  from xq p(3) have "x = \<lparr>userId = fst (call ! p), movieId = snd (call ! p),
                predicted = predict call ! p\<rparr>"
    by (simp add: case_prod_beta)
  with p n show ?thesis by auto
qed

lemma frame_group_empty:
  assumes "\<forall>p<length call. p < length (predict call) \<longrightarrow>
             key \<lparr>userId = fst (call ! p), movieId = snd (call ! p),
                  predicted = predict call ! p\<rparr> = k \<longrightarrow> predict call ! p = NaN"
  shows "rank_order key (frame predict call) k = []"
proof -
  have "set (rank_order key (frame predict call) k) = {}"
  proof (rule ccontr)
    assume "set (rank_order key (frame predict call) k) \<noteq> {}"
    then obtain j where j: "j < length (frame predict call)"
      "key (frame predict call ! j) = k"
      by (auto simp: set_rank_order)
    from j(1) have "frame predict call ! j \<in> set (frame predict call)" by simp
    from frame_origin [OF this] obtain p where p: "p < length call" "p < length (predict call)"
      "predict call ! p \<noteq> NaN"
      "frame predict call ! j = \<lparr>userId = fst (call ! p), movieId = snd (call ! p),
                predicted = predict call ! p\<rparr>" by blast
    with assms j(2) show False by auto
  qed
  then show ?thesis by simp
qed

subsection \<open>The structure of the result\<close>

lemma batch_num_pos: "0 < batch_num"
  by (simp add: batch_num_def)

lemma batches_eq_chunks:
  "map (\<lambda>i. g (py_slice srcs (i * batch_num) (min ((i + 1) * batch_num) (length srcs))))
     [0..<n_batches (length srcs)] = map g (chunks batch_num srcs)"
proof -
  have "map g (map (\<lambda>i. py_slice srcs (i * batch_num) (min ((i + 1) * batch_num) (length srcs)))
     [0..<(length srcs + batch_num - 1) div batch_num]) = map g (chunks batch_num srcs)"
    by (simp only: chunks_batches [OF batch_num_pos])
  then show ?thesis by (simp add: n_batches_def comp_def)
qed

lemma check_rows_Inr:
  "check_rows n res = (calls, Inr (items, scores)) \<Longrightarrow>
   res = (calls, Inr (Some (items, scores))) \<and> length items = n \<and> length scores = n"
  by (auto simp: check_rows_def split: prod.splits sum.splits option.splits if_splits)

lemma recommend_structure:
  assumes t: "t = ''movie'' \<or> t = ''user''"
    and res: "recommend predict t users movies maxsize = (calls, Inr (items, scores))"
    and srcs: "srcs = sources_of t users movies"
    and f: "f = helper t predict (targets_of t users movies) maxsize"
  shows "calls = map (\<lambda>b. fst (f b)) (chunks batch_num srcs)"
    and "\<forall>b \<in> set (chunks batch_num srcs). \<exists>s. snd (f b) = Inr s"
    and "items = concat (map (\<lambda>b. fst (projr (snd (f b)))) (chunks batch_num srcs))"
    and "scores = concat (map (\<lambda>b. snd (projr (snd (f b)))) (chunks batch_num srcs))"
    and "length items = length srcs" and "length scores = length srcs"
proof -
  from res have "check_rows (length srcs)
       (batch_loop f srcs [0..<n_batches (length srcs)] ([], None))
     = (calls, Inr (items, scores))"
    unfolding recommend_eq [OF t] srcs f .
  from check_rows_Inr [OF this]
  have loop: "batch_loop f srcs [0..<n_batches (length srcs)] ([], None)
      = (calls, Inr (Some (items, scores)))"
    and len: "length items = length srcs" "length scores = length srcs" by simp_all
  note bl = batch_loop_Inr [OF loop]
  from bl(1) show "calls = map (\<lambda>b. fst (f b)) (chunks batch_num srcs)"
    unfolding batches_eq_chunks [of "\<lambda>b. fst (f b)"] by simp
  have "\<forall>b \<in> set (map (\<lambda>i. py_slice srcs (i * batch_num)
          (min ((i + 1) * batch_num) (length srcs))) [0..<n_batches (length srcs)]).
          \<exists>s. snd (f b) = Inr s"
    using bl(2) unfolding set_map by blast
  then show "\<forall>b \<in> set (chunks batch_num srcs). \<exists>s. snd (f b) = Inr s"
    unfolding batches_eq_chunks [of "\<lambda>b. b" srcs] by simp
  from bl(3) show "items = concat (map (\<lambda>b. fst (projr (snd (f b)))) (chunks batch_num srcs))"
    unfolding batches_eq_chunks [of "\<lambda>b. fst (projr (snd (f b)))"] by simp
  from bl(4) show "scores = concat (map (\<lambda>b. snd (projr (snd (f b)))) (chunks batch_num srcs))"
    unfolding batches_eq_chunks [of "\<lambda>b. snd (projr (snd (f b)))"] by simp
  show "length items = length srcs" and "length scores = length srcs" by (rule len)+
qed

lemma helper_shape:
  assumes "snd (helper t predict targets maxsize b) = Inr s"
  shows "length (fst s) = length b" and "length (snd s) = length b"
    and "0 \<le> width maxsize targets"
    and "r < length b \<Longrightarrow> length (fst s ! r) = nat (width maxsize targets)"
    and "r < length b \<Longrightarrow> length (snd s ! r) = nat (width maxsize targets)"
proof -
  obtain A B where s: "s = (A, B)" by (cases s)
  from assms s have rb: "rank_batch (key_of t) (item_of t) predict (pairs_of t b targets) b
       (width maxsize targets) = (pairs_of t b targets, Inr (A, B))"
    by (simp add: helper_eq rank_batch_def split: if_splits)
  note sh = rank_batch_shape [OF rb]
  from sh s show "length (fst s) = length b" and "length (snd s) = length b"
    and "0 \<le> width maxsize targets"
    and "r < length b \<Longrightarrow> length (fst s ! r) = nat (width maxsize targets)"
    and "r < length b \<Longrightarrow> length (snd s ! r) = nat (width maxsize targets)"
    by simp_all
qed

lemma recommend_row:
  assumes t: "t = ''movie'' \<or> t = ''user''"
    and res: "recommend predict t users movies maxsize = (calls, Inr (items, scores))"
    and srcs: "srcs = sources_of t users movies"
    and f: "f = helper t predict (targets_of t users movies) maxsize"
    and i: "i < length srcs"
    and b: "b = chunks batch_num srcs ! (i div batch_num)"
  shows "\<exists>A B. f b = (calls ! (i div batch_num), Inr (A, B)) \<and>
           items ! i = A ! (i mod batch_num) \<and> scores ! i = B ! (i mod batch_num)"
    and "i div batch_num < length calls"
    and "i mod batch_num < length b"
    and "b ! (i mod batch_num) = srcs ! i"
    and "b \<in> set (chunks batch_num srcs)"
proof -
  note st = recommend_structure [OF t res srcs f]
  have lenA: "\<forall>b \<in> set (chunks batch_num srcs). length (fst (projr (snd (f b)))) = length b"
  proof
    fix c assume "c \<in> set (chunks batch_num srcs)"
    with st(2) obtain s where s: "snd (f c) = Inr s" by blast
    from helper_shape(1) [OF s [unfolded f]] s show "length (fst (projr (snd (f c)))) = length c"
      by simp
  qed
  have lenB: "\<forall>b \<in> set (chunks batch_num srcs). length (snd (projr (snd (f b)))) = length b"
  proof
    fix c assume "c \<in> set (chunks batch_num srcs)"
    with st(2) obtain s where s: "snd (f c) = Inr s" by blast
    from helper_shape(2) [OF s [unfolded f]] s show "length (snd (projr (snd (f c)))) = length c"
      by simp
  qed
  note nA = concat_map_chunks_nth [OF batch_num_pos lenA i]
  note nB = concat_map_chunks_nth [OF batch_num_pos lenB i]
  from nA have d: "i div batch_num < length (chunks batch_num srcs)" by simp
  with st(1) show "i div batch_num < length calls" by simp
  from nA b show "i mod batch_num < length b" by simp
  from nA b show "b ! (i mod batch_num) = srcs ! i" by simp
  from d b show bm: "b \<in> set (chunks batch_num srcs)" by simp
  with st(2) obtain s where s: "snd (f b) = Inr s" by blast
  obtain A B where AB: "s = (A, B)" by (cases s)
  from st(1) d b have c: "calls ! (i div batch_num) = fst (f b)" by simp
  from s AB c have fb: "f b = (calls ! (i div batch_num), Inr (A, B))"
    by (metis prod.collapse)
  from nA st(3) b s AB have "items ! i = A ! (i mod batch_num)" by simp
  moreover from nB st(4) b s AB have "scores ! i = B ! (i mod batch_num)" by simp
  ultimately show "\<exists>A B. f b = (calls ! (i div batch_num), Inr (A, B)) \<and>
           items ! i = A ! (i mod batch_num) \<and> scores ! i = B ! (i mod batch_num)"
    using fb by blast
qed

subsection \<open>The rows of one batch\<close>

lemma recommend_Inr_valid:
  "recommend predict t users movies maxsize = (calls, Inr r) \<Longrightarrow> t = ''movie'' \<or> t = ''user''"
  by (auto simp: recommend_def split: if_splits)

lemma helper_Inr:
  assumes "helper t predict targets maxsize b = (call, Inr (A, B))"
  shows "call = pairs_of t b targets"
    and "length (predict call) = length call"
    and "call \<noteq> []"
    and "rank_and_fill (key_of t) (item_of t) (index_mapping b) (length b)
           (frame predict call) (width maxsize targets) = Inr (A, B)"
proof -
  from assms have rb: "rank_batch (key_of t) (item_of t) predict (pairs_of t b targets) b
       (width maxsize targets) = (call, Inr (A, B))"
    by (simp add: helper_eq)
  from rank_batch_Inr(1) [OF rb] show c: "call = pairs_of t b targets" by simp
  from rank_batch_Inr(2,3,4) [OF rb] c
  show "length (predict call) = length call" and "call \<noteq> []"
    and "rank_and_fill (key_of t) (item_of t) (index_mapping b) (length b)
           (frame predict call) (width maxsize targets) = Inr (A, B)"
    by simp_all
qed

lemma helper_cell:
  assumes h: "helper t predict targets maxsize b = (call, Inr (A, B))"
    and rc: "r < length b" "c < nat (width maxsize targets)"
  shows "A ! r ! c =
           (if index_mapping b (uint (uint32 (b ! r))) = Some r \<and>
               c < length (rank_order (key_of t) (frame predict call) (uint32 (b ! r)))
            then id_cell (item_of t (frame predict call !
                   (rank_order (key_of t) (frame predict call) (uint32 (b ! r)) ! c)))
            else NaN)"
    and "B ! r ! c =
           (if index_mapping b (uint (uint32 (b ! r))) = Some r \<and>
               c < length (rank_order (key_of t) (frame predict call) (uint32 (b ! r)))
            then predicted (frame predict call !
                   (rank_order (key_of t) (frame predict call) (uint32 (b ! r)) ! c))
            else NaN)"
  using rank_and_fill_cell [OF helper_Inr(4) [OF h] rc] by simp_all

text \<open>The number of filled cells of row \<open>r\<close> of a batch.\<close>

lemma helper_row:
  assumes h: "helper t predict targets maxsize b = (call, Inr (A, B))"
    and r: "r < length b"
    and n: "n = (if index_mapping b (uint (uint32 (b ! r))) = Some r
                 then min (nat (width maxsize targets))
                        (length (rank_order (key_of t) (frame predict call) (uint32 (b ! r))))
                 else 0)"
  shows "n \<le> nat (width maxsize targets)"
    and "length (A ! r) = nat (width maxsize targets)"
    and "length (B ! r) = nat (width maxsize targets)"
    and "\<forall>c<n. A ! r ! c = id_cell (item_of t (frame predict call !
                   (rank_order (key_of t) (frame predict call) (uint32 (b ! r)) ! c))) \<and>
                B ! r ! c = predicted (frame predict call !
                   (rank_order (key_of t) (frame predict call) (uint32 (b ! r)) ! c)) \<and>
                rank_order (key_of t) (frame predict call) (uint32 (b ! r)) ! c
                   < length (frame predict call) \<and>
                key_of t (frame predict call !
                   (rank_order (key_of t) (frame predict call) (uint32 (b ! r)) ! c))
                   = uint32 (b ! r)"
    and "\<forall>c. n \<le> c \<and> c < nat (width maxsize targets) \<longrightarrow>
               A ! r ! c = NaN \<and> B ! r ! c = NaN"
proof -
  let ?k = "nat (width maxsize targets)"
  let ?O = "rank_order (key_of t) (frame predict call) (uint32 (b ! r))"
  from h have hs: "snd (helper t predict targets maxsize b) = Inr (A, B)" by simp
  from n show "n \<le> ?k" by simp
  from helper_shape(4,5) [OF hs r] show "length (A ! r) = ?k" and "length (B ! r) = ?k"
    by simp_all
  show "\<forall>c<n. A ! r ! c = id_cell (item_of t (frame predict call ! (?O ! c))) \<and>
                B ! r ! c = predicted (frame predict call ! (?O ! c)) \<and>
                ?O ! c < length (frame predict call) \<and>
                key_of t (frame predict call ! (?O ! c)) = uint32 (b ! r)"
  proof (intro allI impI)
    fix c assume c: "c < n"
    with n have own: "index_mapping b (uint (uint32 (b ! r))) = Some r"
      and ck: "c < ?k" and cO: "c < length ?O"
      by (simp_all split: if_splits)
    from helper_cell [OF h r ck] own cO rank_order_nth [OF cO]
    show "A ! r ! c = id_cell (item_of t (frame predict call ! (?O ! c))) \<and>
                B ! r ! c = predicted (frame predict call ! (?O ! c)) \<and>
                ?O ! c < length (frame predict call) \<and>
                key_of t (frame predict call ! (?O ! c)) = uint32 (b ! r)"
      by simp
  qed
  show "\<forall>c. n \<le> c \<and> c < ?k \<longrightarrow> A ! r ! c = NaN \<and> B ! r ! c = NaN"
  proof (intro allI impI)
    fix c assume c: "n \<le> c \<and> c < ?k"
    then have ck: "c < ?k" by simp
    from c n have "\<not> (index_mapping b (uint (uint32 (b ! r))) = Some r \<and> c < length ?O)"
      by (auto split: if_splits)
    with helper_cell [OF h r ck] show "A ! r ! c = NaN \<and> B ! r ! c = NaN"
      by simp
  qed
qed

lemma helper_row_ranked:
  assumes h: "helper t predict targets maxsize b = (call, Inr (A, B))"
    and r: "r < length b"
  shows "\<exists>n\<le>length (B ! r). length (A ! r) = length (B ! r) \<and>
           (\<forall>c<n. B ! r ! c \<noteq> NaN \<and> A ! r ! c \<noteq> NaN) \<and>
           (\<forall>c. n \<le> c \<and> c < length (B ! r) \<longrightarrow> B ! r ! c = NaN \<and> A ! r ! c = NaN) \<and>
           (\<forall>c d. c \<le> d \<and> d < n \<longrightarrow> f64_le (B ! r ! d) (B ! r ! c))"
proof -
  let ?k = "nat (width maxsize targets)"
  let ?df = "frame predict call"
  let ?O = "rank_order (key_of t) ?df (uint32 (b ! r))"
  define n where "n = (if index_mapping b (uint (uint32 (b ! r))) = Some r
                 then min ?k (length ?O) else 0)"
  note row = helper_row [OF h r n_def]
  have nO: "n \<le> length ?O" by (simp add: n_def)
  have filled: "B ! r ! c \<noteq> NaN \<and> A ! r ! c \<noteq> NaN" if "c < n" for c
  proof -
    from row(4) that have "A ! r ! c = id_cell (item_of t (?df ! (?O ! c)))"
      and "B ! r ! c = predicted (?df ! (?O ! c))" and "?O ! c < length ?df"
      by simp_all
    with frame_nth_not_NaN [of "?O ! c" predict call] show ?thesis
      by (simp add: id_cell_def)
  qed
  have sorted: "f64_le (B ! r ! d) (B ! r ! c)" if "c \<le> d \<and> d < n" for c d
  proof -
    from that have c: "c < n" and d: "d < n" and cd: "c \<le> d" by simp_all
    from d nO have dO: "d < length ?O" by simp
    from row(4) c d have e: "B ! r ! c = predicted (?df ! (?O ! c))"
      "B ! r ! d = predicted (?df ! (?O ! d))" by simp_all
    from rank_order_sorted [OF cd dO]
    have "desc_key (B ! r ! c) \<le> desc_key (B ! r ! d)" unfolding e .
    with desc_key_le [of "B ! r ! c" "B ! r ! d"] filled [OF c] filled [OF d]
    show ?thesis by simp
  qed
  from row(1,2,3,5) filled sorted show ?thesis
    by (intro exI [of _ n]) simp
qed

lemma filter_take_nth:
  assumes "p < length xs" "P (xs ! p)"
  shows "length (filter P (take p xs)) < length (filter P xs)"
    and "filter P xs ! length (filter P (take p xs)) = xs ! p"
proof -
  from assms(1) have "xs = take p xs @ xs ! p # drop (Suc p) xs"
    by (rule id_take_nth_drop)
  then have "filter P xs = filter P (take p xs @ xs ! p # drop (Suc p) xs)" by simp
  with assms(2) have e: "filter P xs = filter P (take p xs) @ xs ! p # filter P (drop (Suc p) xs)"
    by simp
  have "length (filter P (take p xs))
      < length (filter P (take p xs) @ xs ! p # filter P (drop (Suc p) xs))" by simp
  then show "length (filter P (take p xs)) < length (filter P xs)"
    by (simp only: e [symmetric])
  have "(filter P (take p xs) @ xs ! p # filter P (drop (Suc p) xs))
      ! length (filter P (take p xs)) = xs ! p" by (rule nth_append_length)
  then show "filter P xs ! length (filter P (take p xs)) = xs ! p"
    by (simp only: e [symmetric])
qed

lemma filter_take_mono:
  assumes "p < q" "q \<le> length xs" "P (xs ! p)"
  shows "length (filter P (take p xs)) < length (filter P (take q xs))"
proof -
  from assms have "p < length (take q xs)" "P (take q xs ! p)" by simp_all
  from filter_take_nth(1) [of p "take q xs" P, OF this] assms(1) show ?thesis
    by (simp add: min_def)
qed

lemma groupby_rank_nth: "j < length df \<Longrightarrow> groupby_rank key df ! j = rank_of key df j"
  by (simp add: groupby_rank_def)

lemma key_of_row: "key_of t \<lparr>userId = fst q, movieId = snd q, predicted = s\<rparr> = src_of t q"
  by (simp add: key_of_def src_of_def)

lemma item_of_row: "item_of t \<lparr>userId = fst q, movieId = snd q, predicted = s\<rparr> = tgt_of t q"
  by (simp add: item_of_def tgt_of_def)

lemma helper_cell_origin:
  assumes h: "helper t predict targets maxsize b = (call, Inr (A, B))"
    and r: "r < length b" and c: "c < length (A ! r)"
    and v: "A ! r ! c \<noteq> NaN \<or> B ! r ! c \<noteq> NaN"
  shows "\<exists>p<length call. predict call ! p \<noteq> NaN \<and> B ! r ! c = predict call ! p \<and>
           A ! r ! c = id_cell (tgt_of t (call ! p)) \<and> src_of t (call ! p) = uint32 (b ! r)"
proof -
  let ?k = "nat (width maxsize targets)"
  let ?df = "frame predict call"
  let ?O = "rank_order (key_of t) ?df (uint32 (b ! r))"
  define n where "n = (if index_mapping b (uint (uint32 (b ! r))) = Some r
                 then min ?k (length ?O) else 0)"
  note row = helper_row [OF h r n_def]
  from c row(2) have ck: "c < ?k" by simp
  have cn: "c < n"
  proof (rule ccontr)
    assume "\<not> c < n"
    with ck row(5) have "A ! r ! c = NaN \<and> B ! r ! c = NaN" by simp
    with v show False by simp
  qed
  with row(4) have A: "A ! r ! c = id_cell (item_of t (?df ! (?O ! c)))"
    and B: "B ! r ! c = predicted (?df ! (?O ! c))"
    and j: "?O ! c < length ?df"
    and k: "key_of t (?df ! (?O ! c)) = uint32 (b ! r)"
    by simp_all
  from j have "?df ! (?O ! c) \<in> set ?df" by simp
  from frame_origin [OF this] obtain p where p: "p < length call"
    "predict call ! p \<noteq> NaN"
    "?df ! (?O ! c) = \<lparr>userId = fst (call ! p), movieId = snd (call ! p),
                predicted = predict call ! p\<rparr>" by blast
  from A B k show ?thesis
    unfolding p(3) key_of_row item_of_row using p(1,2)
    by (intro exI [of _ p]) simp
qed



subsection \<open>When a batch returns\<close>

lemma itertuples_loop_total:
  assumes "\<forall>(x, rk) \<in> set ws. \<exists>r. im (uint (key x)) = Some r \<and> r < n \<and> 0 < rk \<and> rk \<le> k"
    and "map length A = replicate n k" and "map length B = replicate n k"
  shows "\<exists>A' B'. itertuples_loop key item im ws (A, B) = Inr (A', B')"
  using assms
proof (induction ws arbitrary: A B)
  case Nil
  then show ?case by simp
next
  case (Cons w ws)
  obtain x rk where w: "w = (x, rk)" by (cases w)
  from Cons.prems(1) w obtain r where r: "im (uint (key x)) = Some r" "r < n" "0 < rk" "rk \<le> k"
    by auto
  from Cons.prems(2) have lA: "length A = n" by (metis length_map length_replicate)
  from Cons.prems(3) have lB: "length B = n" by (metis length_map length_replicate)
  from Cons.prems(2) r(2) lA have rA: "length (A ! r) = k"
    by (metis nth_map nth_replicate)
  from Cons.prems(3) r(2) lB have rB: "length (B ! r) = k"
    by (metis nth_map nth_replicate)
  let ?A = "A[r := (A ! r)[rk - 1 := id_cell (item x)]]"
  let ?B = "B[r := (B ! r)[rk - 1 := predicted x]]"
  have sA: "map length ?A = replicate n k"
    using Cons.prems(2) r(2) lA by (simp add: map_length_update2)
  have sB: "map length ?B = replicate n k"
    using Cons.prems(3) r(2) lB by (simp add: map_length_update2)
  from Cons.prems(1) have tl: "\<forall>(x, rk) \<in> set ws. \<exists>r. im (uint (key x)) = Some r \<and> r < n \<and> 0 < rk \<and> rk \<le> k"
    by simp
  from Cons.IH [OF tl sA sB] obtain A' B' where
    "itertuples_loop key item im ws (?A, ?B) = Inr (A', B')" by blast
  with w r lA lB rA rB show ?case by (simp add: Let_def)
qed

lemma rank_and_fill_total:
  assumes m: "0 \<le> maxsize"
    and im: "\<forall>x \<in> set df. \<exists>r. im (uint (key x)) = Some r \<and> r < n"
  shows "\<exists>A B. rank_and_fill key item im n df maxsize = Inr (A, B)"
proof (cases "df = []")
  case True
  with m show ?thesis by (simp add: rank_and_fill_def)
next
  case False
  let ?ws = "filter (\<lambda>(r, rank). int rank \<le> maxsize) (zip df (groupby_rank key df))"
  have "\<forall>(x, rk) \<in> set ?ws. \<exists>r. im (uint (key x)) = Some r \<and> r < n \<and> 0 < rk \<and> rk \<le> nat maxsize"
  proof (clarify)
    fix x rk assume "(x, rk) \<in> set ?ws"
    then have mem: "(x, rk) \<in> set (zip df (groupby_rank key df))" and le: "int rk \<le> maxsize"
      by simp_all
    from mem obtain i where i: "i < length df" "x = df ! i" "rk = rank_of key df i"
      by (auto simp: ranked_eq)
    from i(1,2) have "x \<in> set df" by simp
    with im obtain r where "im (uint (key x)) = Some r" "r < n" by blast
    moreover from i(3) have "0 < rk" by (simp add: rank_of_def)
    moreover from le have "rk \<le> nat maxsize" by simp
    ultimately show "\<exists>r. im (uint (key x)) = Some r \<and> r < n \<and> 0 < rk \<and> rk \<le> nat maxsize"
      by blast
  qed
  from itertuples_loop_total [OF this, of "full n (nat maxsize)" "full n (nat maxsize)" item]
  obtain A B where "itertuples_loop key item im ?ws (full n (nat maxsize), full n (nat maxsize))
      = Inr (A, B)"
    by (auto simp: full_def)
  with False m show ?thesis by (simp add: rank_and_fill_def Let_def)
qed

lemma uint_uint32: "0 \<le> s \<Longrightarrow> s < 2 ^ 32 \<Longrightarrow> uint (uint32 s) = s"
  by (simp add: uint32_def uint_word_of_int)

lemma src_of_pairs_of:
  "q \<in> set (pairs_of t b targets) \<Longrightarrow> \<exists>s \<in> set b. src_of t q = uint32 s"
  by (auto simp: pairs_of_def pairs_for_users_def pairs_for_movies_def src_of_def
      split: if_splits intro: bexI)

lemma tgt_of_pairs_of:
  "q \<in> set (pairs_of t b targets) \<Longrightarrow> \<exists>s \<in> set targets. tgt_of t q = uint32 s"
  by (auto simp: pairs_of_def pairs_for_users_def pairs_for_movies_def tgt_of_def
      split: if_splits intro: bexI)

lemma pairs_of_Nil: "pairs_of t b targets = [] \<longleftrightarrow> b = [] \<or> targets = []"
  by (auto simp: pairs_of_def pairs_for_users_def pairs_for_movies_def)

lemma helper_total:
  assumes b: "b \<noteq> []" and tg: "targets \<noteq> []"
    and len: "length (predict (pairs_of t b targets)) = length (pairs_of t b targets)"
    and rng: "\<forall>s \<in> set b. 0 \<le> s \<and> s < 2 ^ 32"
    and w: "0 \<le> width maxsize targets"
  shows "\<exists>A B. helper t predict targets maxsize b = (pairs_of t b targets, Inr (A, B))"
proof -
  let ?call = "pairs_of t b targets"
  have "\<forall>x \<in> set (frame predict ?call).
          \<exists>r. index_mapping b (uint (key_of t x)) = Some r \<and> r < length b"
  proof
    fix x assume "x \<in> set (frame predict ?call)"
    from frame_origin [OF this] obtain p where p: "p < length ?call"
      "x = \<lparr>userId = fst (?call ! p), movieId = snd (?call ! p),
             predicted = predict ?call ! p\<rparr>" by blast
    from p(1) have "?call ! p \<in> set ?call" by simp
    from src_of_pairs_of [OF this] obtain s where s: "s \<in> set b"
      "src_of t (?call ! p) = uint32 s" by blast
    from p(2) s(2) have "key_of t x = uint32 s" by (simp add: key_of_row)
    with rng s(1) have k: "uint (key_of t x) = s" by (simp add: uint_uint32)
    from s(1) obtain r where r: "index_mapping b s = Some r"
      using index_mapping_None [of b s] by (cases "index_mapping b s") auto
    from index_mapping_SomeD [OF r] r k
    show "\<exists>r. index_mapping b (uint (key_of t x)) = Some r \<and> r < length b" by simp
  qed
  from rank_and_fill_total [OF w this, of "item_of t"] obtain A B where
    "rank_and_fill (key_of t) (item_of t) (index_mapping b) (length b)
       (frame predict ?call) (width maxsize targets) = Inr (A, B)" by blast
  with len b tg show ?thesis
    by (simp add: helper_eq rank_batch_def pairs_of_Nil)
qed

section \<open>Properties\<close>

subsection \<open>The selector and the empty list of sources\<close>

text \<open>
  C7. A selector other than \<open>'movie'\<close> and \<open>'user'\<close> makes \<open>recommend\<close> raise
  \<open>ValueError\<close>, whatever the other arguments are, and the list of calls of \<open>predict\<close> is
  empty: no batch was formed and the scoring function was never invoked.
\<close>

theorem recommend_wrong_type:
  "recommended_type \<noteq> ''movie'' \<Longrightarrow> recommended_type \<noteq> ''user'' \<Longrightarrow>
   recommend predict recommended_type users movies maxsize = ([], Inl ValueError)"
  by (simp add: recommend_def)

theorem recommend_wrong_type_witness:
  "''book'' \<noteq> ''movie'' \<and> ''book'' \<noteq> ''user'' \<and>
   recommend (map (\<lambda>_. Fin 1)) ''book'' [1, 2] [10, 20] (Some 2) = ([], Inl ValueError)"
  using recommend_wrong_type [of "''book''" "map (\<lambda>_. Fin 1)" "[1, 2]" "[10, 20]" "Some 2"]
  by simp

text \<open>
  C8. With a valid selector and no source entity (no user for \<open>'movie'\<close>, no movie for
  \<open>'user'\<close>) the loop body never runs, \<open>predict\<close> is never called, and reading \<open>.shape\<close> of
  the accumulator, still \<open>None\<close>, raises \<open>AttributeError\<close>; no pair of arrays is returned.
\<close>

theorem recommend_no_sources:
  "recommend predict ''movie'' [] movies maxsize = ([], Inl AttributeError) \<and>
   recommend predict ''user'' users [] maxsize = ([], Inl AttributeError)"
  by (simp add: recommend_def n_batches_def batch_num_def check_rows_def)

text \<open>
  C1, at the empty list of users: with one movie and \<open>maxsize = 1\<close> the claimed result
  is a pair of arrays of shape \<open>(0, 1)\<close>; the code raises \<open>AttributeError\<close> instead.
\<close>

theorem recommend_shape_fails_on_empty_users:
  "recommend (map (\<lambda>_. Fin 1)) ''movie'' [] [10] (Some 1) = ([], Inl AttributeError)"
  by code_simp

subsection \<open>Ranked rows\<close>

text \<open>
  C2. In every row of the arrays that \<open>recommend\<close> returns, the entries that are not the
  sentinel form a prefix of the row, in both arrays at the same columns, and along that
  prefix the scores never increase: a sentinel never precedes a valid entry, and the valid
  entries are in the order of their ranks, that is in descending order of score. (Scores
  that tie are equal, so the order of the scores is descending in the weak sense.)
\<close>

theorem recommend_rows_ranked:
  assumes res: "recommend predict recommended_type users movies maxsize
                  = (calls, Inr (rec_items, rec_scores))"
    and i: "i < length rec_scores"
  shows "\<exists>n\<le>length (rec_scores ! i). length (rec_items ! i) = length (rec_scores ! i) \<and>
           (\<forall>c<n. rec_scores ! i ! c \<noteq> NaN \<and> rec_items ! i ! c \<noteq> NaN) \<and>
           (\<forall>c. n \<le> c \<and> c < length (rec_scores ! i) \<longrightarrow>
                  rec_scores ! i ! c = NaN \<and> rec_items ! i ! c = NaN) \<and>
           (\<forall>c d. c \<le> d \<and> d < n \<longrightarrow> f64_le (rec_scores ! i ! d) (rec_scores ! i ! c))"
proof -
  let ?srcs = "sources_of recommended_type users movies"
  let ?f = "helper recommended_type predict (targets_of recommended_type users movies) maxsize"
  let ?b = "chunks batch_num ?srcs ! (i div batch_num)"
  note t = recommend_Inr_valid [OF res]
  from recommend_structure(6) [OF t res refl refl] i have i': "i < length ?srcs" by simp
  note row = recommend_row [OF t res refl refl i' refl]
  from row(1) obtain A B where h: "?f ?b = (calls ! (i div batch_num), Inr (A, B))"
    and e: "rec_items ! i = A ! (i mod batch_num)" "rec_scores ! i = B ! (i mod batch_num)"
    by blast
  from helper_row_ranked [OF h row(3)] show ?thesis unfolding e .
qed

theorem recommend_rows_ranked_witness:
  "recommend scenario_predict ''movie'' [1, 2] [10, 20, 30] None
     = ([[(1, 10), (2, 10), (1, 20), (2, 20), (1, 30), (2, 30)]],
        Inr ([[Fin 10, Fin 20, NaN], [Fin 30, Fin 10, Fin 20]],
             [[Fin (9 / 10), Fin (1 / 2), NaN], [Fin (4 / 5), Fin (1 / 10), Fin (1 / 10)]])) \<and>
   (\<exists>n\<le>length ([[Fin (9 / 10), Fin (1 / 2), NaN], [Fin (4 / 5), Fin (1 / 10), Fin (1 / 10)]] ! 0).
      length ([[Fin 10, Fin 20, NaN], [Fin 30, Fin 10, Fin 20]] ! 0)
        = length ([[Fin (9 / 10), Fin (1 / 2), NaN], [Fin (4 / 5), Fin (1 / 10), Fin (1 / 10)]] ! 0) \<and>
      (\<forall>c<n. [[Fin (9 / 10), Fin (1 / 2), NaN], [Fin (4 / 5), Fin (1 / 10), Fin (1 / 10)]] ! 0 ! c \<noteq> NaN \<and>
             [[Fin 10, Fin 20, NaN], [Fin 30, Fin 10, Fin 20]] ! 0 ! c \<noteq> NaN) \<and>
      (\<forall>c. n \<le> c \<and> c < length ([[Fin (9 / 10), Fin (1 / 2), NaN], [Fin (4 / 5), Fin (1 / 10), Fin (1 / 10)]] ! 0) \<longrightarrow>
             [[Fin (9 / 10), Fin (1 / 2), NaN], [Fin (4 / 5), Fin (1 / 10), Fin (1 / 10)]] ! 0 ! c = NaN \<and>
             [[Fin 10, Fin 20, NaN], [Fin 30, Fin 10, Fin 20]] ! 0 ! c = NaN) \<and>
      (\<forall>c d. c \<le> d \<and> d < n \<longrightarrow>
             f64_le ([[Fin (9 / 10), Fin (1 / 2), NaN], [Fin (4 / 5), Fin (1 / 10), Fin (1 / 10)]] ! 0 ! d)
                    ([[Fin (9 / 10), Fin (1 / 2), NaN], [Fin (4 / 5), Fin (1 / 10), Fin (1 / 10)]] ! 0 ! c)))"
proof (rule conjI)
  show e: "recommend scenario_predict ''movie'' [1, 2] [10, 20, 30] None
     = ([[(1, 10), (2, 10), (1, 20), (2, 20), (1, 30), (2, 30)]],
        Inr ([[Fin 10, Fin 20, NaN], [Fin 30, Fin 10, Fin 20]],
             [[Fin (9 / 10), Fin (1 / 2), NaN], [Fin (4 / 5), Fin (1 / 10), Fin (1 / 10)]]))"
    by code_simp
  have l: "0 < length [[Fin (9 / 10), Fin (1 / 2), NaN], [Fin (4 / 5), Fin (1 / 10), Fin (1 / 10)]]"
    by simp
  show "\<exists>n\<le>length ([[Fin (9 / 10), Fin (1 / 2), NaN], [Fin (4 / 5), Fin (1 / 10), Fin (1 / 10)]] ! 0).
      length ([[Fin 10, Fin 20, NaN], [Fin 30, Fin 10, Fin 20]] ! 0)
        = length ([[Fin (9 / 10), Fin (1 / 2), NaN], [Fin (4 / 5), Fin (1 / 10), Fin (1 / 10)]] ! 0) \<and>
      (\<forall>c<n. [[Fin (9 / 10), Fin (1 / 2), NaN], [Fin (4 / 5), Fin (1 / 10), Fin (1 / 10)]] ! 0 ! c \<noteq> NaN \<and>
             [[Fin 10, Fin 20, NaN], [Fin 30, Fin 10, Fin 20]] ! 0 ! c \<noteq> NaN) \<and>
      (\<forall>c. n \<le> c \<and> c < length ([[Fin (9 / 10), Fin (1 / 2), NaN], [Fin (4 / 5), Fin (1 / 10), Fin (1 / 10)]] ! 0) \<longrightarrow>
             [[Fin (9 / 10), Fin (1 / 2), NaN], [Fin (4 / 5), Fin (1 / 10), Fin (1 / 10)]] ! 0 ! c = NaN \<and>
             [[Fin 10, Fin 20, NaN], [Fin 30, Fin 10, Fin 20]] ! 0 ! c = NaN) \<and>
      (\<forall>c d. c \<le> d \<and> d < n \<longrightarrow>
             f64_le ([[Fin (9 / 10), Fin (1 / 2), NaN], [Fin (4 / 5), Fin (1 / 10), Fin (1 / 10)]] ! 0 ! d)
                    ([[Fin (9 / 10), Fin (1 / 2), NaN], [Fin (4 / 5), Fin (1 / 10), Fin (1 / 10)]] ! 0 ! c))"
    by (rule recommend_rows_ranked [OF e l])
qed

subsection \<open>Ties\<close>

text \<open>
  C3. Let \<open>tbl\<close> be the table of the cross product with its scores, before the rows
  without a score are dropped, and let rows \<open>p < q\<close> of it belong to the same source
  entity (the same value of the group key) and carry the same score, which is not missing.
  Both rows survive \<open>dropna\<close>, in the same relative order, and the rank column gives the
  earlier one the strictly smaller rank: ties are broken by position in the cross product,
  not by identifier and not by averaging.
\<close>

theorem ties_broken_by_position:
  assumes pq: "p < q" "q < length tbl"
    and key: "key (tbl ! p) = key (tbl ! q)"
    and tie: "predicted (tbl ! p) = predicted (tbl ! q)"
    and sc: "predicted (tbl ! q) \<noteq> NaN"
  shows "length (dropna (take p tbl)) < length (dropna (take q tbl)) \<and>
         length (dropna (take q tbl)) < length (dropna tbl) \<and>
         dropna tbl ! length (dropna (take p tbl)) = tbl ! p \<and>
         dropna tbl ! length (dropna (take q tbl)) = tbl ! q \<and>
         groupby_rank key (dropna tbl) ! length (dropna (take p tbl))
           < groupby_rank key (dropna tbl) ! length (dropna (take q tbl))"
proof -
  let ?P = "\<lambda>r. predicted r \<noteq> NaN"
  let ?p = "length (filter ?P (take p tbl))"
  let ?q = "length (filter ?P (take q tbl))"
  let ?df = "filter ?P tbl"
  from pq have p: "p < length tbl" by simp
  from tie sc have Pp: "?P (tbl ! p)" by simp
  from pq have q: "q \<le> length tbl" by simp
  have 1: "?p < ?q" by (rule filter_take_mono [of p q tbl ?P, OF pq(1) q Pp])
  have 2: "?q < length ?df" by (rule filter_take_nth(1) [of q tbl ?P, OF pq(2) sc])
  have 3: "?df ! ?p = tbl ! p" by (rule filter_take_nth(2) [of p tbl ?P, OF p Pp])
  have 4: "?df ! ?q = tbl ! q" by (rule filter_take_nth(2) [of q tbl ?P, OF pq(2) sc])
  from key tie have k: "key (?df ! ?p) = key (?df ! ?q)"
    and s: "predicted (?df ! ?p) = predicted (?df ! ?q)"
    unfolding 3 4 by simp_all
  have "rank_of key ?df ?p < rank_of key ?df ?q"
    by (rule rank_of_tie [OF 1 2 k s])
  moreover from 1 2 have "?p < length ?df" by simp
  ultimately have 5: "groupby_rank key ?df ! ?p < groupby_rank key ?df ! ?q"
    using 2 by (simp add: groupby_rank_nth)
  from 1 2 3 4 5 show ?thesis unfolding dropna_def by blast
qed

theorem ties_broken_by_position_witness:
  "(1::nat) < 3 \<and>
   3 < length (make_table (pairs_for_users [1, 2] [10, 20, 30])
                 (scenario_predict (pairs_for_users [1, 2] [10, 20, 30]))) \<and>
   userId (make_table (pairs_for_users [1, 2] [10, 20, 30])
                 (scenario_predict (pairs_for_users [1, 2] [10, 20, 30])) ! 1)
     = userId (make_table (pairs_for_users [1, 2] [10, 20, 30])
                 (scenario_predict (pairs_for_users [1, 2] [10, 20, 30])) ! 3) \<and>
   predicted (make_table (pairs_for_users [1, 2] [10, 20, 30])
                 (scenario_predict (pairs_for_users [1, 2] [10, 20, 30])) ! 1)
     = predicted (make_table (pairs_for_users [1, 2] [10, 20, 30])
                 (scenario_predict (pairs_for_users [1, 2] [10, 20, 30])) ! 3) \<and>
   predicted (make_table (pairs_for_users [1, 2] [10, 20, 30])
                 (scenario_predict (pairs_for_users [1, 2] [10, 20, 30])) ! 3) \<noteq> NaN \<and>
   groupby_rank userId (dropna (make_table (pairs_for_users [1, 2] [10, 20, 30])
                 (scenario_predict (pairs_for_users [1, 2] [10, 20, 30]))))
       ! length (dropna (take 1 (make_table (pairs_for_users [1, 2] [10, 20, 30])
                 (scenario_predict (pairs_for_users [1, 2] [10, 20, 30])))))
     < groupby_rank userId (dropna (make_table (pairs_for_users [1, 2] [10, 20, 30])
                 (scenario_predict (pairs_for_users [1, 2] [10, 20, 30]))))
       ! length (dropna (take 3 (make_table (pairs_for_users [1, 2] [10, 20, 30])
                 (scenario_predict (pairs_for_users [1, 2] [10, 20, 30])))))"
proof -
  let ?tbl = "make_table (pairs_for_users [1, 2] [10, 20, 30])
                 (scenario_predict (pairs_for_users [1, 2] [10, 20, 30]))"
  have 1: "(1::nat) < 3" by simp
  have 2: "3 < length ?tbl" by code_simp
  have 3: "userId (?tbl ! 1) = userId (?tbl ! 3)" by code_simp
  have 4: "predicted (?tbl ! 1) = predicted (?tbl ! 3)" by code_simp
  have 5: "predicted (?tbl ! 3) \<noteq> NaN" by code_simp
  from ties_broken_by_position [OF 1 2 3 4 5] 1 2 3 4 5 show ?thesis by blast
qed

subsection \<open>Batches\<close>




subsection \<open>Scores that are missing, and scores that are infinite\<close>

text \<open>
  C6, as stated, fails for an infinite score: \<open>dropna\<close> drops what is missing, and an
  infinity is not. With one user, one movie and the score \<open>+inf\<close>, the pair is ranked first
  and both arrays hold it.
\<close>

theorem infinite_score_is_ranked:
  "constant_predict PosInf [(1, 10)] = [PosInf] \<and>
   recommend (constant_predict PosInf) ''movie'' [1] [10] None
     = ([[(1, 10)]], Inr ([[Fin 10]], [[PosInf]]))"
  by code_simp

text \<open>
  C6, amended. A pair whose score is missing (not-a-number, which is also what a null
  becomes in a float array) is left out of the frame that is ranked and never appears in
  the result: every cell of the result that is not the sentinel holds the target and the
  score of a pair that \<open>predict\<close> was called on in the batch of that row, whose score is
  not missing and whose source is the source of the row. Infinite scores are ranked like
  any other score.
\<close>

theorem missing_scores_never_appear:
  assumes res: "recommend predict recommended_type users movies maxsize
                  = (calls, Inr (rec_items, rec_scores))"
    and i: "i < length rec_items" and c: "c < length (rec_items ! i)"
    and v: "rec_items ! i ! c \<noteq> NaN \<or> rec_scores ! i ! c \<noteq> NaN"
  shows "(\<forall>call \<in> set calls. \<forall>x \<in> set (frame predict call). predicted x \<noteq> NaN) \<and>
    (\<exists>p<length (calls ! (i div batch_num)).
       predict (calls ! (i div batch_num)) ! p \<noteq> NaN \<and>
       rec_scores ! i ! c = predict (calls ! (i div batch_num)) ! p \<and>
       rec_items ! i ! c = id_cell (tgt_of recommended_type (calls ! (i div batch_num) ! p)) \<and>
       src_of recommended_type (calls ! (i div batch_num) ! p)
         = uint32 (sources_of recommended_type users movies ! i))"
proof -
  let ?srcs = "sources_of recommended_type users movies"
  let ?f = "helper recommended_type predict (targets_of recommended_type users movies) maxsize"
  let ?b = "chunks batch_num ?srcs ! (i div batch_num)"
  let ?r = "i mod batch_num"
  note t = recommend_Inr_valid [OF res]
  from recommend_structure(5) [OF t res refl refl] i have i': "i < length ?srcs" by simp
  note row = recommend_row [OF t res refl refl i' refl]
  from row(1) obtain A B where h: "?f ?b = (calls ! (i div batch_num), Inr (A, B))"
    and e: "rec_items ! i = A ! ?r" "rec_scores ! i = B ! ?r"
    by blast
  from c e have c': "c < length (A ! ?r)" by simp
  from v e have v': "A ! ?r ! c \<noteq> NaN \<or> B ! ?r ! c \<noteq> NaN" by simp
  from helper_cell_origin [OF h row(3) c' v'] row(4) e
  have "\<exists>p<length (calls ! (i div batch_num)).
       predict (calls ! (i div batch_num)) ! p \<noteq> NaN \<and>
       rec_scores ! i ! c = predict (calls ! (i div batch_num)) ! p \<and>
       rec_items ! i ! c = id_cell (tgt_of recommended_type (calls ! (i div batch_num) ! p)) \<and>
       src_of recommended_type (calls ! (i div batch_num) ! p) = uint32 (?srcs ! i)"
    by auto
  moreover have "\<forall>call \<in> set calls. \<forall>x \<in> set (frame predict call). predicted x \<noteq> NaN"
    by (simp add: frame_not_NaN)
  ultimately show ?thesis by blast
qed

theorem missing_scores_never_appear_witness:
  "recommend scenario_predict ''movie'' [1, 2] [10, 20, 30] None
     = (scenario_calls, Inr (scenario_items, scenario_scores)) \<and>
   0 < length scenario_items \<and> 1 < length (scenario_items ! 0) \<and>
   scenario_items ! 0 ! 1 \<noteq> NaN \<and>
   (\<exists>p<length (scenario_calls ! (0 div batch_num)).
       scenario_predict (scenario_calls ! (0 div batch_num)) ! p \<noteq> NaN \<and>
       scenario_scores ! 0 ! 1 = scenario_predict (scenario_calls ! (0 div batch_num)) ! p \<and>
       scenario_items ! 0 ! 1 = id_cell (tgt_of ''movie'' (scenario_calls ! (0 div batch_num) ! p)) \<and>
       src_of ''movie'' (scenario_calls ! (0 div batch_num) ! p)
         = uint32 (sources_of ''movie'' [1, 2] [10, 20, 30] ! 0))"
proof -
  have e: "recommend scenario_predict ''movie'' [1, 2] [10, 20, 30] None
     = (scenario_calls, Inr (scenario_items, scenario_scores))"
    by code_simp
  have i: "0 < length scenario_items" by (simp add: scenario_items_def)
  have c: "1 < length (scenario_items ! 0)" by (simp add: scenario_items_def)
  have v: "scenario_items ! 0 ! 1 \<noteq> NaN" by (simp add: scenario_items_def)
  have v': "scenario_items ! 0 ! 1 \<noteq> NaN \<or> scenario_scores ! 0 ! 1 \<noteq> NaN"
    using v by (rule disjI1)
  from missing_scores_never_appear [OF e i c v'] e i c v show ?thesis by blast
qed

end
